theory Spec2Isabelle
  imports Complex_Main "HOL-Library.Sublist"
begin

section \<open>Python exceptions\<close>

text \<open>
  The script \<^verbatim>\<open>plots/comparison.py\<close> has no \<^verbatim>\<open>try\<close>: every exception raised by a
  library call ends the interpreter. The exceptions that the calls of the script can raise
  are the values of \<open>error\<close>.
\<close>

datatype error =
    ValueError
  | OverflowError
  | IndexError
  | FileNotFoundError
  | OSError

section \<open>Binary64 numbers\<close>

text \<open>
  A Python \<^verbatim>\<open>float\<close> and a \<^verbatim>\<open>numpy.float64\<close> are IEEE 754 binary64 numbers.
  \<open>Finite s m e\<close> is \<open>(-1)^s * m * 2^e\<close>, kept canonical: \<open>2^52 \<le> m < 2^53\<close> and
  \<open>-1074 \<le> e \<le> 971\<close> for a normal number, \<open>m < 2^52\<close> and \<open>e = -1074\<close> for a
  subnormal number and for zero. All arithmetic rounds to nearest, ties to even.
\<close>

datatype double = Finite bool int int | Infinity bool | NaN

definition double_val :: "double \<Rightarrow> real" where
  "double_val x =
     (case x of
        Finite s m e \<Rightarrow>
          (if s then - 1 else 1) *
          (if 0 \<le> e then of_int m * 2 ^ nat e else of_int m / 2 ^ nat (- e))
      | _ \<Rightarrow> 0)"

function bit_length :: "int \<Rightarrow> int" where
  "bit_length n = (if n \<le> 0 then 0 else 1 + bit_length (n div 2))"
  by pat_completeness auto
termination
  by (relation "measure nat") auto

declare bit_length.simps [simp del]

function isqrt :: "int \<Rightarrow> int" where
  "isqrt n =
     (if n < 1 then 0
      else let r = 2 * isqrt (n div 4)
           in if (r + 1) * (r + 1) \<le> n then r + 1 else r)"
  by pat_completeness auto
termination
  by (relation "measure nat") auto

declare isqrt.simps [simp del]

text \<open>
  \<open>pack s m e\<close> finishes a rounding: a significand that the rounding carried to \<open>2^53\<close>
  is renormalised, and an exponent beyond the largest one overflows to infinity.
\<close>

definition pack :: "bool \<Rightarrow> int \<Rightarrow> int \<Rightarrow> double" where
  "pack s m e =
     (let m' = (if m = 2 ^ 53 then 2 ^ 52 else m);
          e' = (if m = 2 ^ 53 then e + 1 else e)
      in if 971 < e' then Infinity s else Finite s m' e')"

text \<open>
  \<open>round_ratio s p q\<close> is the binary64 number nearest to \<open>(-1)^s * p / q\<close>, for
  \<open>0 \<le> p\<close> and \<open>0 < q\<close>, ties to even.
\<close>

definition round_ratio :: "bool \<Rightarrow> int \<Rightarrow> int \<Rightarrow> double" where
  "round_ratio s p q =
     (if p = 0 then Finite s 0 (- 1074)
      else
        let d = bit_length p - bit_length q;
            l = (if q * 2 ^ nat d \<le> p * 2 ^ nat (- d) then d else d - 1);
            e = max (- 1074) (l - 52);
            num = p * 2 ^ nat (- e);
            den = q * 2 ^ nat e;
            t = num div den;
            r = num mod den;
            m = (if den < 2 * r \<or> (2 * r = den \<and> odd t) then t + 1 else t)
        in pack s m e)"

definition double_of_int :: "int \<Rightarrow> double" where
  "double_of_int n = round_ratio (n < 0) \<bar>n\<bar> 1"

text \<open>True division \<^verbatim>\<open>a / b\<close> of two \<^verbatim>\<open>numpy.float64\<close>: a zero divisor raises nothing.\<close>

fun np_true_divide :: "double \<Rightarrow> double \<Rightarrow> double" where
  "np_true_divide NaN _ = NaN"
| "np_true_divide _ NaN = NaN"
| "np_true_divide (Infinity s) (Infinity t) = NaN"
| "np_true_divide (Infinity s) (Finite t m e) = Infinity (s \<noteq> t)"
| "np_true_divide (Finite s m e) (Infinity t) = Finite (s \<noteq> t) 0 (- 1074)"
| "np_true_divide (Finite s m e) (Finite t m' e') =
     (if m' = 0 then (if m = 0 then NaN else Infinity (s \<noteq> t))
      else round_ratio (s \<noteq> t) (m * 2 ^ nat (e - e')) (m' * 2 ^ nat (e' - e)))"

text \<open>\<^verbatim>\<open>numpy.sqrt\<close> of a \<^verbatim>\<open>numpy.float64\<close>: correctly rounded, \<open>nan\<close> below zero.\<close>

definition sqrt_finite :: "int \<Rightarrow> int \<Rightarrow> double" where
  "sqrt_finite m e =
     (let b = bit_length m;
          k = (if even (e - (105 - b)) then 105 - b else 106 - b);
          N = m * 2 ^ nat k;
          q = isqrt N;
          m' = (if q * q + q < N then q + 1 else q)
      in pack False m' ((e - k) div 2))"

fun np_sqrt :: "double \<Rightarrow> double" where
  "np_sqrt NaN = NaN"
| "np_sqrt (Infinity s) = (if s then NaN else Infinity False)"
| "np_sqrt (Finite s m e) =
     (if m = 0 then Finite s m e
      else if s then NaN
      else sqrt_finite m e)"

text \<open>\<^verbatim>\<open>int(x)\<close> of a float truncates toward zero and raises on \<open>inf\<close> and \<open>nan\<close>.\<close>

fun py_int :: "double \<Rightarrow> error + int" where
  "py_int NaN = Inl ValueError"
| "py_int (Infinity s) = Inl OverflowError"
| "py_int (Finite s m e) =
     (let a = (if 0 \<le> e then m * 2 ^ nat e else m div 2 ^ nat (- e))
      in Inr (if s then - a else a))"

section \<open>Sweep Generator\<close>

text \<open>
  \<^verbatim>\<open>elements = np.logspace(2, 7, 6)\<close> is the array of \<open>10 ** y\<close> for the six evenly
  spaced exponents \<open>y = 2, 3, 4, 5, 6, 7\<close>; each power is a binary64 number.
\<close>

definition elements :: "double list" where
  "elements = map (\<lambda>y. double_of_int (10 ^ y)) [2 ..< 8]"

text \<open>The size expression \<^verbatim>\<open>int(np.sqrt(n / 2))\<close> of the loop header.\<close>

definition problem_size :: "double \<Rightarrow> error + int" where
  "problem_size n = py_int (np_sqrt (np_true_divide n (double_of_int 2)))"

text \<open>The list comprehension \<^verbatim>\<open>[int(np.sqrt(n / 2)) for n in elements]\<close>.\<close>

fun sweep :: "double list \<Rightarrow> error + int list" where
  "sweep [] = Inr []"
| "sweep (n # ns) =
     (case problem_size n of
        Inl err \<Rightarrow> Inl err
      | Inr k \<Rightarrow> (case sweep ns of Inl err \<Rightarrow> Inl err | Inr ks \<Rightarrow> Inr (k # ks)))"

section \<open>Text\<close>

text \<open>
  A Python \<^verbatim>\<open>str\<close> is modelled by a \<open>string\<close> whose characters are the code points
  below 256. The line read from a timing file is text that has been decoded already.
\<close>

definition startswith :: "string \<Rightarrow> string \<Rightarrow> bool" where
  "startswith s sep = (take (length sep) s = sep)"

text \<open>
  \<^verbatim>\<open>s.split(sep)\<close> cuts \<open>s\<close> at the occurrences of \<open>sep\<close>, found from left to right
  without overlap; an empty separator raises. \<open>acc\<close> holds the piece being read, reversed.
\<close>

function split_pieces :: "string \<Rightarrow> string \<Rightarrow> string \<Rightarrow> string list" where
  "split_pieces sep acc [] = [rev acc]"
| "split_pieces sep acc (c # cs) =
     (if sep \<noteq> [] \<and> startswith (c # cs) sep
      then rev acc # split_pieces sep [] (drop (length sep) (c # cs))
      else split_pieces sep (c # acc) cs)"
  by pat_completeness auto
termination
  by (relation "measure (\<lambda>(sep, acc, s). length s)") auto

declare split_pieces.simps(2) [simp del]

definition str_split :: "string \<Rightarrow> string \<Rightarrow> error + string list" where
  "str_split s sep = (if sep = [] then Inl ValueError else Inr (split_pieces sep [] s))"

text \<open>\<^verbatim>\<open>xs[0]\<close> raises on an empty list.\<close>

definition first_item :: "'a list \<Rightarrow> error + 'a" where
  "first_item xs = (case xs of [] \<Rightarrow> Inl IndexError | x # _ \<Rightarrow> Inr x)"

text \<open>
  \<^verbatim>\<open>f.readline()\<close> on a file opened in text mode with the default \<^verbatim>\<open>newline=None\<close>:
  the line ends after the first \<^verbatim>\<open>\n\<close>, \<^verbatim>\<open>\r\<close> or \<^verbatim>\<open>\r\n\<close>, which is handed over
  as \<^verbatim>\<open>\n\<close>; at the end of the file the line has no terminator.
\<close>

fun readline :: "string \<Rightarrow> string" where
  "readline [] = []"
| "readline (c # cs) =
     (if c = CHR 0x0A \<or> c = CHR 0x0D then [CHR 0x0A] else c # readline cs)"

subsection \<open>The constructor \<^verbatim>\<open>float(str)\<close>\<close>

text \<open>\<^verbatim>\<open>ord(c)\<close>, the code point of a character.\<close>

definition ord :: "char \<Rightarrow> int" where
  "ord c = of_char c"

definition is_digit :: "char \<Rightarrow> bool" where
  "is_digit c = (48 \<le> ord c \<and> ord c \<le> 57)"

definition digit_val :: "char \<Rightarrow> int" where
  "digit_val c = ord c - 48"

text \<open>\<^verbatim>\<open>Py_ISSPACE\<close>: the ASCII white space.\<close>

definition is_space :: "char \<Rightarrow> bool" where
  "is_space c = (ord c = 32 \<or> (9 \<le> ord c \<and> ord c \<le> 13))"

text \<open>\<^verbatim>\<open>Py_UNICODE_ISSPACE\<close> on the code points from 127 to 255.\<close>

definition is_unicode_space :: "char \<Rightarrow> bool" where
  "is_unicode_space c = (ord c = 133 \<or> ord c = 160)"

text \<open>
  \<^verbatim>\<open>_PyUnicode_TransformDecimalAndSpaceToASCII\<close>: an ASCII string is kept; otherwise
  each code point below 127 is kept, a white space becomes a blank, and the copy stops
  with a question mark at the first other code point (no code point from 127 to 255 is
  a decimal digit).
\<close>

fun transform_chars :: "string \<Rightarrow> string" where
  "transform_chars [] = []"
| "transform_chars (c # cs) =
     (if ord c < 127 then c # transform_chars cs
      else if is_unicode_space c then CHR 0x20 # transform_chars cs
      else [CHR ''?''])"

definition transform_decimal_and_space :: "string \<Rightarrow> string" where
  "transform_decimal_and_space s =
     (if list_all (\<lambda>c. ord c < 128) s then s else transform_chars s)"

text \<open>
  \<^verbatim>\<open>_Py_string_to_number_with_underscores\<close>: an underscore must stand between two
  digits; the underscores are dropped. \<open>prev\<close> is the character before, \<open>None\<close> at
  the start.
\<close>

fun strip_underscores :: "char option \<Rightarrow> string \<Rightarrow> string option" where
  "strip_underscores prev [] = (if prev = Some CHR ''_'' then None else Some [])"
| "strip_underscores prev (c # cs) =
     (if c = CHR ''_'' then
        (case prev of
           None \<Rightarrow> None
         | Some p \<Rightarrow> if is_digit p then strip_underscores (Some c) cs else None)
      else if prev = Some CHR ''_'' \<and> \<not> is_digit c then None
      else map_option (\<lambda>r. c # r) (strip_underscores (Some c) cs))"

text \<open>The value of a digit string, most significant digit first.\<close>

definition digits_val :: "string \<Rightarrow> int" where
  "digits_val ds = foldl (\<lambda>a c. 10 * a + digit_val c) 0 ds"

definition take_sign :: "string \<Rightarrow> bool \<times> string" where
  "take_sign s =
     (case s of
        c # cs \<Rightarrow> if c = CHR ''-'' then (True, cs)
                  else if c = CHR ''+'' then (False, cs) else (False, s)
      | [] \<Rightarrow> (False, s))"

text \<open>
  \<^verbatim>\<open>_Py_dg_strtod\<close>: the longest prefix of the form sign, digits, point, digits,
  exponent (with a digit before or after the point) is converted, correctly rounded, and
  the rest of the string is returned with it. An exponent letter that no digit follows is
  not part of the number. When there is no number the rest is the whole string.
\<close>

definition strtod :: "string \<Rightarrow> double \<times> string" where
  "strtod s =
     (let (neg, s1) = take_sign s;
          ip = takeWhile is_digit s1;
          r1 = dropWhile is_digit s1;
          has_point = (r1 \<noteq> [] \<and> hd r1 = CHR ''.'');
          fp = (if has_point then takeWhile is_digit (tl r1) else []);
          r2 = (if has_point then dropWhile is_digit (tl r1) else r1)
      in if ip = [] \<and> fp = [] then (Finite False 0 (- 1074), s)
         else
           let has_e = (r2 \<noteq> [] \<and> (hd r2 = CHR ''e'' \<or> hd r2 = CHR ''E''));
               (eneg, r3) = take_sign (tl r2);
               ed = takeWhile is_digit r3;
               with_exp = (has_e \<and> ed \<noteq> []);
               ex = (if with_exp
                     then (if eneg then - digits_val ed else digits_val ed) else 0);
               rest = (if with_exp then dropWhile is_digit r3 else r2);
               x = ex - int (length fp)
           in (round_ratio neg (digits_val (ip @ fp) * 10 ^ nat x) (10 ^ nat (- x)), rest))"

definition lower :: "char \<Rightarrow> char" where
  "lower c = (if 65 \<le> ord c \<and> ord c \<le> 90 then char_of (ord c + 32) else c)"

definition case_insensitive_match :: "string \<Rightarrow> string \<Rightarrow> bool" where
  "case_insensitive_match s t = (map lower (take (length t) s) = t)"

text \<open>\<^verbatim>\<open>_Py_parse_inf_or_nan\<close>; when neither is there the rest is the whole string.\<close>

definition parse_inf_or_nan :: "string \<Rightarrow> double \<times> string" where
  "parse_inf_or_nan s =
     (let (neg, s1) = take_sign s
      in if case_insensitive_match s1 ''inf'' then
           (let s2 = drop 3 s1
            in (Infinity neg, if case_insensitive_match s2 ''inity'' then drop 5 s2 else s2))
         else if case_insensitive_match s1 ''nan'' then (NaN, drop 3 s1)
         else (Finite False 0 (- 1074), s))"

definition ascii_strtod :: "string \<Rightarrow> double \<times> string" where
  "ascii_strtod s =
     (let (x, rest) = strtod s
      in if length rest = length s then parse_inf_or_nan s else (x, rest))"

text \<open>
  \<^verbatim>\<open>float_from_string_inner\<close>: white space is stripped at both ends, and the number
  must be the whole of what is left.
\<close>

definition strip_trailing :: "string \<Rightarrow> string" where
  "strip_trailing s = rev (dropWhile is_space (rev s))"

definition float_from_string_inner :: "string \<Rightarrow> error + double" where
  "float_from_string_inner s =
     (let s1 = dropWhile is_space s
      in if s1 = [] then Inl ValueError
         else
           let (x, rest) = ascii_strtod (strip_trailing s1)
           in if rest \<noteq> [] then Inl ValueError else Inr x)"

definition py_float :: "string \<Rightarrow> error + double" where
  "py_float v =
     (let s = transform_decimal_and_space v
      in if CHR ''_'' \<notin> set s then float_from_string_inner s
         else (case strip_underscores None s of
                 None \<Rightarrow> Inl ValueError
               | Some dup \<Rightarrow> float_from_string_inner dup))"

section \<open>Timing Parser\<close>

text \<open>
  The two statements under each \<^verbatim>\<open>with open(...)\<close> once the line is read:
  \<^verbatim>\<open>user_time = line.split("user")[0]\<close> and \<^verbatim>\<open>float(user_time)\<close>.
\<close>

definition parse_line :: "string \<Rightarrow> error + double" where
  "parse_line line =
     (case str_split line ''user'' of
        Inl err \<Rightarrow> Inl err
      | Inr pieces \<Rightarrow>
          (case first_item pieces of
             Inl err \<Rightarrow> Inl err
           | Inr user_time \<Rightarrow> py_float user_time))"

section \<open>The script\<close>

text \<open>
  What the script touches outside itself is the state: the files it reads, the child
  processes it starts, the lines it prints, the images it saves, and its two module-level
  accumulators \<^verbatim>\<open>time_nim\<close> and \<^verbatim>\<open>time_fenics\<close>.
\<close>

type_synonym environ = "string \<rightharpoonup> string"

text \<open>
  One \<^verbatim>\<open>subprocess.run(argv, env=...)\<close>; \<open>env = None\<close> is the default, under which
  the child inherits the environment of the script.
\<close>

record call =
  argv :: "string list"
  env :: "environ option"

definition child_env :: "environ \<Rightarrow> call \<Rightarrow> environ" where
  "child_env os_environ c = (case env c of None \<Rightarrow> os_environ | Some e \<Rightarrow> e)"

datatype printed_line =
    PrintInt int
  | PrintArray "double list"
  | PrintSpeedup "double list"

record curve =
  xs :: "double list"
  ys :: "double list"
  label :: string

record figure =
  curves :: "curve list"
  xlabel :: string
  ylabel :: string
  legend :: bool

record state =
  files :: "string \<rightharpoonup> string"
  spawned :: "call list"
  printed :: "printed_line list"
  saved :: "(string \<times> figure) list"
  time_nim :: "double list"
  time_fenics :: "double list"

text \<open>
  An exception that nothing catches ends the script; the result keeps the state reached
  when it was raised.
\<close>

type_synonym outcome = "(error \<times> state) + state"

text \<open>
  The children are not part of the script: \<open>spawn c fs\<close> is what running the command
  \<open>c\<close> makes of the files \<open>fs\<close>, or the exception of \<^verbatim>\<open>subprocess.run\<close> when the
  command cannot be started. The exit status of the child is not looked at.
\<close>

type_synonym spawner = "call \<Rightarrow> (string \<rightharpoonup> string) \<Rightarrow> error + (string \<rightharpoonup> string)"

definition subprocess_run :: "spawner \<Rightarrow> call \<Rightarrow> state \<Rightarrow> outcome" where
  "subprocess_run spawn c st =
     (let st' = st\<lparr>spawned := spawned st @ [c]\<rparr>
      in case spawn c (files st) of
           Inl err \<Rightarrow> Inl (err, st')
         | Inr fs \<Rightarrow> Inr (st'\<lparr>files := fs\<rparr>))"

text \<open>\<^verbatim>\<open>f"{n}"\<close> of an \<^verbatim>\<open>int\<close>: its decimal digits, with a minus sign below zero.\<close>

function str_pos :: "int \<Rightarrow> string" where
  "str_pos n =
     (if n < 10 then [char_of (48 + n)]
      else str_pos (n div 10) @ [char_of (48 + n mod 10)])"
  by pat_completeness auto
termination
  by (relation "measure nat") auto

declare str_pos.simps [simp del]

definition str_int :: "int \<Rightarrow> string" where
  "str_int n = (if n < 0 then CHR ''-'' # str_pos (- n) else str_pos n)"

definition nim_path :: "int \<Rightarrow> string" where
  "nim_path n = ''timings/nim'' @ str_int n @ ''.txt''"

definition fenics_path :: "int \<Rightarrow> string" where
  "fenics_path n = ''timings/fenics'' @ str_int n @ ''.txt''"

definition nim_call :: "int \<Rightarrow> call" where
  "nim_call n =
     \<lparr>argv = [''/usr/bin/time'', ''-o'', nim_path n, ''./poisson'', str_int n],
      env = None\<rparr>"

definition fenics_call :: "environ \<Rightarrow> int \<Rightarrow> call" where
  "fenics_call fenics_env n =
     \<lparr>argv = [''/usr/bin/time'', ''-o'', fenics_path n, ''python3'', ''poisson.py'', str_int n],
      env = Some fenics_env\<rparr>"

text \<open>
  \<^verbatim>\<open>with open(path) as f: line = f.readline(); ...; float(user_time)\<close>: the value read
  from the first line of the file, or the exception.
\<close>

definition read_user_time :: "string \<Rightarrow> state \<Rightarrow> error + double" where
  "read_user_time path st =
     (case files st path of
        None \<Rightarrow> Inl FileNotFoundError
      | Some content \<Rightarrow> parse_line (readline content))"

definition read_times :: "int \<Rightarrow> state \<Rightarrow> outcome" where
  "read_times n st =
     (case read_user_time (nim_path n) st of
        Inl err \<Rightarrow> Inl (err, st)
      | Inr t \<Rightarrow>
          (let st1 = st\<lparr>time_nim := time_nim st @ [t]\<rparr>
           in case read_user_time (fenics_path n) st1 of
                Inl err \<Rightarrow> Inl (err, st1)
              | Inr u \<Rightarrow> Inr (st1\<lparr>time_fenics := time_fenics st1 @ [u]\<rparr>)))"

text \<open>The body of the \<^verbatim>\<open>for\<close> loop for one size \<open>n\<close>.\<close>

definition body :: "bool \<Rightarrow> spawner \<Rightarrow> environ \<Rightarrow> int \<Rightarrow> state \<Rightarrow> outcome" where
  "body run spawn fenics_env n st =
     (let st1 = st\<lparr>printed := printed st @ [PrintInt n]\<rparr>
      in if run then
           (case subprocess_run spawn (nim_call n) st1 of
              Inl failure \<Rightarrow> Inl failure
            | Inr st2 \<Rightarrow>
                (case subprocess_run spawn (fenics_call fenics_env n) st2 of
                   Inl failure \<Rightarrow> Inl failure
                 | Inr st3 \<Rightarrow> read_times n st3))
         else read_times n st1)"

fun loop :: "bool \<Rightarrow> spawner \<Rightarrow> environ \<Rightarrow> int list \<Rightarrow> state \<Rightarrow> outcome" where
  "loop run spawn fenics_env [] st = Inr st"
| "loop run spawn fenics_env (n # ns) st =
     (case body run spawn fenics_env n st of
        Inl failure \<Rightarrow> Inl failure
      | Inr st' \<Rightarrow> loop run spawn fenics_env ns st')"

subsection \<open>Aggregator and Reporter\<close>

text \<open>
  \<^verbatim>\<open>a / b\<close> of two one-dimensional \<^verbatim>\<open>float64\<close> arrays divides element by element;
  an array of length one is broadcast against the other; any other pair of different
  lengths raises.
\<close>

definition array_divide :: "double list \<Rightarrow> double list \<Rightarrow> error + double list" where
  "array_divide a b =
     (if length a = length b then Inr (map2 np_true_divide a b)
      else if length a = 1 then Inr (map (\<lambda>y. np_true_divide (hd a) y) b)
      else if length b = 1 then Inr (map (\<lambda>x. np_true_divide x (hd b)) a)
      else Inl ValueError)"

text \<open>\<^verbatim>\<open>plt.loglog(x, y, label=...)\<close> adds a curve; \<open>x\<close> and \<open>y\<close> must be equally long.\<close>

definition loglog :: "double list \<Rightarrow> double list \<Rightarrow> string \<Rightarrow> figure \<Rightarrow> error + figure" where
  "loglog x y l fig =
     (if length x \<noteq> length y then Inl ValueError
      else Inr (fig\<lparr>curves := curves fig @ [\<lparr>xs = x, ys = y, label = l\<rparr>]\<rparr>))"

definition empty_figure :: figure where
  "empty_figure = \<lparr>curves = [], xlabel = [], ylabel = [], legend = False\<rparr>"

text \<open>Lines 44 to 59: the arrays, the two curves, the speedup and the saved image.\<close>

definition report :: "state \<Rightarrow> outcome" where
  "report st =
     (let st1 = st\<lparr>printed := printed st @ [PrintArray (time_nim st), PrintArray (time_fenics st)]\<rparr>
      in case loglog elements (time_nim st1) ''Nimfem'' empty_figure of
           Inl err \<Rightarrow> Inl (err, st1)
         | Inr fig1 \<Rightarrow>
             (case loglog elements (time_fenics st1) ''FEniCS'' fig1 of
                Inl err \<Rightarrow> Inl (err, st1)
              | Inr fig2 \<Rightarrow>
                  (let fig3 = fig2\<lparr>xlabel := ''Number of Elements'', ylabel := ''Time [s]'',
                                   legend := True\<rparr>
                   in case array_divide (time_fenics st1) (time_nim st1) of
                        Inl err \<Rightarrow> Inl (err, st1)
                      | Inr speedup \<Rightarrow>
                          (let st2 = st1\<lparr>printed := printed st1 @ [PrintSpeedup speedup]\<rparr>
                           in Inr (st2\<lparr>saved := saved st2 @ [(''comparison.png'', fig3)]\<rparr>)))))"

definition initial :: "(string \<rightharpoonup> string) \<Rightarrow> state" where
  "initial fs =
     \<lparr>files = fs, spawned = [], printed = [], saved = [], time_nim = [], time_fenics = []\<rparr>"

text \<open>
  The whole script. \<open>run\<close> is its constant \<^verbatim>\<open>run\<close>, \<open>os_environ\<close> the environment it
  was started in, \<open>fs\<close> the files it finds.
\<close>

definition harness :: "bool \<Rightarrow> environ \<Rightarrow> spawner \<Rightarrow> (string \<rightharpoonup> string) \<Rightarrow> outcome" where
  "harness run os_environ spawn fs =
     (let fenics_env = os_environ(''OMP_NUM_THREADS'' \<mapsto> ''1'')
      in case sweep elements of
           Inl err \<Rightarrow> Inl (err, initial fs)
         | Inr sizes \<Rightarrow>
             (case loop run spawn fenics_env sizes (initial fs) of
                Inl failure \<Rightarrow> Inl failure
              | Inr st \<Rightarrow> report st))"

text \<open>The script as it stands: \<^verbatim>\<open>run = False\<close>.\<close>

definition comparison :: "environ \<Rightarrow> spawner \<Rightarrow> (string \<rightharpoonup> string) \<Rightarrow> outcome" where
  "comparison = harness False"

text \<open>The exit status of the interpreter: 1 after an exception that nothing caught.\<close>

definition exit_status :: "outcome \<Rightarrow> nat" where
  "exit_status r = (case r of Inl _ \<Rightarrow> 1 | Inr _ \<Rightarrow> 0)"

text \<open>
  \<open>reports_ok ns st\<close>: for each size of \<open>ns\<close> both timing reports are there in the files
  of \<open>st\<close> and parse.
\<close>

definition reports_ok :: "int list \<Rightarrow> state \<Rightarrow> bool" where
  "reports_ok ns st =
     list_all (\<lambda>n. \<not> isl (read_user_time (nim_path n) st)
                 \<and> \<not> isl (read_user_time (fenics_path n) st)) ns"

section \<open>Exact steps of the binary64 arithmetic\<close>

lemma isqrt_unfold:
  "isqrt n = (if n < 1 then 0
      else if (2 * isqrt (n div 4) + 1) * (2 * isqrt (n div 4) + 1) \<le> n
           then 2 * isqrt (n div 4) + 1 else 2 * isqrt (n div 4))"
  by (subst isqrt.simps) (simp add: Let_def)

lemma isqrt_correct:
  "0 \<le> n \<Longrightarrow> 0 \<le> isqrt n \<and> isqrt n * isqrt n \<le> n \<and> n < (isqrt n + 1) * (isqrt n + 1)"
proof (induction n rule: isqrt.induct)
  case (1 n)
  show ?case
  proof (cases "n < 1")
    case True
    then have "n = 0" using "1.prems" by simp
    moreover have "isqrt 0 = 0" by (subst isqrt_unfold) simp
    ultimately show ?thesis by simp
  next
    case False
    define s where "s = isqrt (n div 4)"
    have "0 \<le> n div 4" using "1.prems" by simp
    from "1.IH" [OF False this]
    have ih: "0 \<le> s" "s * s \<le> n div 4" "n div 4 < (s + 1) * (s + 1)"
      by (simp_all add: s_def)
    have m: "4 * (n div 4) \<le> n" "n < 4 * (n div 4) + 4"
      by presburger+
    have lo: "(2 * s) * (2 * s) \<le> n"
    proof -
      have "4 * (s * s) \<le> 4 * (n div 4)" using ih(2) by simp
      then show ?thesis using m(1) by (simp add: algebra_simps)
    qed
    have hi: "n < (2 * s + 2) * (2 * s + 2)"
    proof -
      have "n div 4 + 1 \<le> (s + 1) * (s + 1)" using ih(3) by simp
      then have "4 * (n div 4) + 4 \<le> 4 * ((s + 1) * (s + 1))" by simp
      then show ?thesis using m(2) by (simp add: algebra_simps)
    qed
    have eq: "isqrt n = (if (2 * s + 1) * (2 * s + 1) \<le> n then 2 * s + 1 else 2 * s)"
      using False by (subst isqrt_unfold) (simp add: s_def)
    show ?thesis
    proof (cases "(2 * s + 1) * (2 * s + 1) \<le> n")
      case True
      then show ?thesis using eq ih(1) hi by (simp add: algebra_simps)
    next
      case False
      then show ?thesis using eq ih(1) lo by (simp add: algebra_simps)
    qed
  qed
qed


lemma bit_length_unfold:
  "bit_length n = (if n \<le> 0 then 0 else 1 + bit_length (n div 2))"
  by (subst bit_length.simps) simp

lemma bit_length_bounds:
  "0 < n \<Longrightarrow> 0 < bit_length n \<and> 2 ^ nat (bit_length n - 1) \<le> n \<and> n < 2 ^ nat (bit_length n)"
proof (induction n rule: bit_length.induct)
  case (1 n)
  have eq: "bit_length n = 1 + bit_length (n div 2)"
    using "1.prems" by (subst bit_length_unfold) simp
  show ?case
  proof (cases "n = 1")
    case True
    have "bit_length 0 = 0" by (subst bit_length_unfold) simp
    then show ?thesis using eq True by simp
  next
    case False
    then have pos: "0 < n div 2" using "1.prems" by presburger
    define b where "b = bit_length (n div 2)"
    have "\<not> n \<le> 0" using "1.prems" by simp
    from "1.IH" [OF this pos]
    have ih: "0 < b" "2 ^ nat (b - 1) \<le> n div 2" "n div 2 < 2 ^ nat b"
      by (simp_all add: b_def)
    have nb: "nat b = Suc (nat (b - 1))"
      using ih(1) by simp
    have m: "2 * (n div 2) \<le> n" "n < 2 * (n div 2) + 2"
      by presburger+
    have lo: "2 ^ nat b \<le> n"
      using ih(2) m(1) by (simp add: nb)
    have "n div 2 + 1 \<le> 2 ^ nat b" using ih(3) by simp
    then have hi: "n < 2 * 2 ^ nat b" using m(2) by simp
    have "nat (1 + b) = Suc (nat b)" "nat (1 + b - 1) = nat b"
      using ih(1) by simp_all
    then show ?thesis
      using ih(1) lo hi by (simp add: eq b_def [symmetric])
  qed
qed

lemma bit_length_eqI:
  assumes "2 ^ k \<le> n" and "n < 2 ^ Suc k"
  shows "bit_length n = int k + 1"
proof -
  have "(0::int) < 2 ^ k" by simp
  then have pos: "0 < n"
    using assms(1) by linarith
  define b where "b = bit_length n"
  from bit_length_bounds [OF pos]
  have b: "0 < b" "2 ^ nat (b - 1) \<le> n" "n < 2 ^ nat b"
    by (simp_all add: b_def)
  have "(2::int) ^ nat (b - 1) < 2 ^ Suc k"
    using b(2) assms(2) by linarith
  then have 1: "nat (b - 1) < Suc k"
    by (rule power_less_imp_less_exp [rotated]) simp
  have "(2::int) ^ k < 2 ^ nat b"
    using b(3) assms(1) by linarith
  then have 2: "k < nat b"
    by (rule power_less_imp_less_exp [rotated]) simp
  have "b = int k + 1"
    using 1 2 b(1) by linarith
  then show ?thesis
    by (simp add: b_def)
qed


lemma round_ratio_exact:
  assumes m: "2 ^ 52 \<le> m" "m < 2 ^ 53"
    and q: "0 < q" and p: "p \<noteq> 0"
    and l: "(if q * 2 ^ nat (bit_length p - bit_length q)
                  \<le> p * 2 ^ nat (- (bit_length p - bit_length q))
             then bit_length p - bit_length q else bit_length p - bit_length q - 1) = e + 52"
    and e: "- 1074 \<le> e" "e \<le> 971"
    and x: "p * 2 ^ nat (- e) = m * (q * 2 ^ nat e)"
  shows "round_ratio s p q = Finite s m e"
proof -
  have den: "0 < q * 2 ^ nat e"
    using q by simp
  have t: "(p * 2 ^ nat (- e)) div (q * 2 ^ nat e) = m"
    using q by (simp add: x)
  have r: "(p * 2 ^ nat (- e)) mod (q * 2 ^ nat e) = 0"
    by (simp only: x mod_mult_self2_is_0)
  have mx: "max (- 1074) (e + 52 - 52) = e"
    using e(1) by simp
  have pk: "pack s m e = Finite s m e"
    using m(2) e(2) by (simp add: pack_def Let_def)
  have "round_ratio s p q =
      (let num = p * 2 ^ nat (- e); den = q * 2 ^ nat e; t = num div den; r = num mod den;
           m = (if den < 2 * r \<or> (2 * r = den \<and> odd t) then t + 1 else t)
       in pack s m e)"
    unfolding round_ratio_def using p by (simp only: Let_def l mx if_False)
  also have "\<dots> = pack s m e"
  proof -
    have "\<not> (q * 2 ^ nat e < 2 * 0 \<or> (2 * 0 = q * 2 ^ nat e \<and> odd m))"
      using den by linarith
    then show ?thesis
      by (simp only: Let_def t r if_False)
  qed
  finally show ?thesis
    using pk by simp
qed

lemma bit_length_1: "bit_length 1 = 1"
  using bit_length_eqI [of 0 1] by simp

lemma double_of_int_normal:
  assumes "2 ^ k \<le> n" and "n < 2 ^ Suc k" and "k \<le> 52"
  shows "double_of_int n = Finite False (n * 2 ^ (52 - k)) (int k - 52)"
proof -
  have "(0::int) < 2 ^ k" by simp
  then have pos: "0 < n" using assms(1) by linarith
  have b: "bit_length n = int k + 1"
    using assms(1,2) by (rule bit_length_eqI)
  have ex: "k + (52 - k) = 52" "Suc k + (52 - k) = 53"
    using assms(3) by simp_all
  have p52: "(2::int) ^ k * 2 ^ (52 - k) = 2 ^ 52"
    by (simp only: power_add [symmetric] ex)
  have p53: "(2::int) ^ Suc k * 2 ^ (52 - k) = 2 ^ 53"
    by (simp only: power_add [symmetric] ex)
  have "2 ^ k * 2 ^ (52 - k) \<le> n * 2 ^ (52 - k)"
    using assms(1) by (rule mult_right_mono) simp
  then have lo: "2 ^ 52 \<le> n * 2 ^ (52 - k)"
    by (simp only: p52)
  have "n * 2 ^ (52 - k) < 2 ^ Suc k * 2 ^ (52 - k)"
    using assms(2) by (rule mult_strict_right_mono) simp
  then have hi: "n * 2 ^ (52 - k) < 2 ^ 53"
    by (simp only: p53)
  have "round_ratio False n 1 = Finite False (n * 2 ^ (52 - k)) (int k - 52)"
  proof (rule round_ratio_exact [OF lo hi])
    show "(0::int) < 1" by simp
    show "n \<noteq> 0" using pos by simp
    show "(if 1 * 2 ^ nat (bit_length n - bit_length 1)
             \<le> n * 2 ^ nat (- (bit_length n - bit_length 1))
           then bit_length n - bit_length 1 else bit_length n - bit_length 1 - 1)
          = int k - 52 + 52"
      using assms(1) by (simp add: b bit_length_1)
    show "- 1074 \<le> int k - 52" by simp
    show "int k - 52 \<le> 971" using assms(3) by simp
    have "nat (- (int k - 52)) = 52 - k" "nat (int k - 52) = 0"
      using assms(3) by simp_all
    then show "n * 2 ^ nat (- (int k - 52)) = n * 2 ^ (52 - k) * (1 * 2 ^ nat (int k - 52))"
      by simp
  qed
  then show ?thesis
    using pos by (simp add: double_of_int_def)
qed


lemma double_of_int_2: "double_of_int 2 = Finite False 4503599627370496 (- 51)"
  using double_of_int_normal [of 1 2] by simp

lemma halve_normal:
  assumes M: "2 ^ 52 \<le> M" "M < 2 ^ 53" and e: "- 51 \<le> e" "e \<le> 0"
  shows "np_true_divide (Finite False M e) (double_of_int 2) = Finite False M (e - 1)"
proof -
  define j where "j = nat (e + 51)"
  define c :: int where "c = 4503599627370496"
  have c: "c = 2 ^ 52"
    by (simp add: c_def)
  have j: "e + 51 = int j" "nat (e - - 51) = j" "nat (- 51 - e) = 0"
    using e by (simp_all add: j_def)
  have q53: "bit_length c = 53"
    using bit_length_eqI [of 52 c] by (simp add: c)
  have cj: "c * 2 ^ j \<le> M * 2 ^ j"
    unfolding c using M(1) by (rule mult_right_mono) simp
  then have lo: "2 ^ (52 + j) \<le> M * 2 ^ j"
    by (simp only: c power_add)
  have "M * 2 ^ j < 2 ^ 53 * 2 ^ j"
    using M(2) by (rule mult_strict_right_mono) simp
  then have hi: "M * 2 ^ j < 2 ^ Suc (52 + j)"
    by (simp add: power_add)
  have bp: "bit_length (M * 2 ^ j) = int j + 53"
    using bit_length_eqI [OF lo hi] by simp
  have rr: "round_ratio False (M * 2 ^ j) c = Finite False M (e - 1)"
  proof (rule round_ratio_exact [OF M])
    show "0 < c" by (simp add: c_def)
    show "M * 2 ^ j \<noteq> 0" using M(1) by simp
    have d: "bit_length (M * 2 ^ j) - bit_length c = int j"
      by (simp add: bp q53)
    have "c * 2 ^ nat (int j) \<le> M * 2 ^ j * 2 ^ nat (- int j)"
      using cj by simp
    then show "(if c * 2 ^ nat (bit_length (M * 2 ^ j) - bit_length c)
             \<le> M * 2 ^ j * 2 ^ nat (- (bit_length (M * 2 ^ j) - bit_length c))
           then bit_length (M * 2 ^ j) - bit_length c
           else bit_length (M * 2 ^ j) - bit_length c - 1) = e - 1 + 52"
      unfolding d using j(1) by simp
    show "- 1074 \<le> e - 1" using e by simp
    show "e - 1 \<le> 971" using e by simp
    have n1: "nat (- (e - 1)) = 52 - j" "nat (e - 1) = 0" "j + (52 - j) = 52"
      using e j(1) by simp_all
    have "(2::int) ^ j * 2 ^ (52 - j) = c"
      by (simp only: power_add [symmetric] n1 c)
    then have "M * 2 ^ j * 2 ^ (52 - j) = M * c"
      by (simp only: mult.assoc)
    then show "M * 2 ^ j * 2 ^ nat (- (e - 1)) = M * (c * 2 ^ nat (e - 1))"
      by (simp only: n1 power_0 mult_1_right)
  qed
  have "c \<noteq> 0"
    by (simp add: c_def)
  then have "np_true_divide (Finite False M e) (Finite False c (- 51)) =
      round_ratio False (M * 2 ^ nat (e - - 51)) (c * 2 ^ nat (- 51 - e))"
    by simp
  also have "\<dots> = round_ratio False (M * 2 ^ j) c"
    by (simp only: j power_0 mult_1_right)
  finally have "np_true_divide (Finite False M e) (Finite False c (- 51)) = Finite False M (e - 1)"
    using rr by simp
  then show ?thesis
    by (simp only: double_of_int_2 c_def)
qed


lemma square_less_imp_less:
  fixes a b :: int
  assumes "a * a < b * b" and "0 \<le> b"
  shows "a < b"
proof (rule ccontr)
  assume "\<not> a < b"
  then have "b \<le> a" by simp
  then have "b * b \<le> a * a"
    using assms(2) by (intro mult_mono) simp_all
  then show False
    using assms(1) by simp
qed

lemma sqrt_finite_floor:
  assumes M: "2 ^ 52 \<le> M" "M < 2 ^ 53"
    and k: "k = (if even (e - 52) then 52 else 53)"
    and E: "2 * E = e - int k" "E < 0"
    and P: "P = 2 ^ nat (- E)"
    and N: "2 * (M * 2 ^ k) = n * (P * P)"
    and K: "0 \<le> K" "2 * (K * K) \<le> n" "n < 2 * ((K + 1) * (K + 1))" "4 * (K + 1) \<le> P"
  shows "py_int (sqrt_finite M e) = Inr K"
proof -
  define N0 where "N0 = M * 2 ^ k"
  define q where "q = isqrt N0"
  define m' where "m' = (if q * q + q < N0 then q + 1 else q)"
  have Ppos: "0 < P"
    by (simp add: P)
  have N0pos: "0 \<le> N0"
    using M(1) by (simp add: N0_def)
  from isqrt_correct [OF N0pos]
  have q: "0 \<le> q" "q * q \<le> N0" "N0 < (q + 1) * (q + 1)"
    by (simp_all add: q_def)
  have N': "2 * N0 = n * (P * P)"
    using N by (simp add: N0_def)
  \<comment> \<open>the lower bound\<close>
  have "2 * ((K * P) * (K * P)) = (2 * (K * K)) * (P * P)"
    by (simp add: algebra_simps)
  also have "\<dots> \<le> n * (P * P)"
    using K(2) by (rule mult_right_mono) simp
  finally have "(K * P) * (K * P) \<le> N0"
    using N' by simp
  then have "(K * P) * (K * P) < (q + 1) * (q + 1)"
    using q(3) by simp
  moreover have "0 \<le> q + 1"
    using q(1) by simp
  ultimately have "K * P < q + 1"
    by (rule square_less_imp_less)
  then have lo: "K * P \<le> q"
    by simp
  \<comment> \<open>the upper bound\<close>
  define A where "A = (K + 1) * P"
  have A1: "1 \<le> A"
  proof -
    have "1 \<le> K + 1" "1 \<le> P" "0 \<le> K + 1" "(0::int) \<le> 1"
      using K(1) Ppos by simp_all
    then have "1 * 1 \<le> (K + 1) * P"
      by (rule mult_mono)
    then show ?thesis by (simp add: A_def)
  qed
  have nA: "n * (P * P) \<le> 2 * (A * A) - P * P"
  proof -
    have "n \<le> 2 * ((K + 1) * (K + 1)) - 1"
      using K(3) by simp
    then have "n * (P * P) \<le> (2 * ((K + 1) * (K + 1)) - 1) * (P * P)"
      by (rule mult_right_mono) simp
    also have "\<dots> = 2 * (A * A) - P * P"
      by (simp add: A_def algebra_simps)
    finally show ?thesis .
  qed
  have PA: "4 * A \<le> P * P"
  proof -
    have "0 \<le> P"
      using Ppos by simp
    with K(4) have "(4 * (K + 1)) * P \<le> P * P"
      by (rule mult_right_mono)
    then show ?thesis by (simp add: A_def algebra_simps)
  qed
  have up: "q + 2 \<le> A"
  proof (rule ccontr)
    assume "\<not> q + 2 \<le> A"
    then have "A - 1 \<le> q" by simp
    moreover have "0 \<le> A - 1"
      using A1 by simp
    ultimately have "(A - 1) * (A - 1) \<le> q * q"
      using q(1) by (simp add: mult_mono)
    then have "2 * ((A - 1) * (A - 1)) \<le> 2 * N0"
      using q(2) by simp
    then have "2 * ((A - 1) * (A - 1)) \<le> 2 * (A * A) - P * P"
      using N' nA by simp
    then have "P * P + 2 \<le> 4 * A"
      by (simp add: algebra_simps)
    then show False
      using PA by simp
  qed
  have m'q: "q \<le> m'" "m' \<le> q + 1"
    by (simp_all add: m'_def)
  \<comment> \<open>no carry into the next binade\<close>
  have N0hi: "N0 \<le> (2 ^ 53 - 1) * 2 ^ 53"
  proof -
    have "k \<le> 53" by (simp add: k)
    then have "(2::int) ^ k \<le> 2 ^ 53"
      by (rule power_increasing) simp
    moreover have "M \<le> 2 ^ 53 - 1" using M(2) by simp
    moreover have "(0::int) \<le> 2 ^ 53 - 1" "(0::int) \<le> 2 ^ k" by simp_all
    ultimately have "M * 2 ^ k \<le> (2 ^ 53 - 1) * 2 ^ 53"
      by (metis mult_mono)
    then show ?thesis by (simp add: N0_def)
  qed
  have m'lt: "m' < 2 ^ 53"
  proof (cases "q * q + q < N0")
    case True
    have "q < 2 ^ 53 - 1"
    proof (rule ccontr)
      assume "\<not> q < 2 ^ 53 - 1"
      then have a: "2 ^ 53 - 1 \<le> q" by simp
      then have "2 ^ 53 \<le> q + 1" by simp
      moreover have "(0::int) \<le> 2 ^ 53" by simp
      ultimately have "(2 ^ 53 - 1) * 2 ^ 53 \<le> q * (q + 1)"
        using a q(1) by (metis mult_mono)
      then show False
        using True N0hi by (simp add: algebra_simps)
    qed
    then show ?thesis
      using True by (simp add: m'_def)
  next
    case False
    have "q * q < 2 ^ 53 * 2 ^ 53"
      using q(2) N0hi by simp
    then have "q < 2 ^ 53"
      by (rule square_less_imp_less) simp
    then show ?thesis
      using False by (simp add: m'_def)
  qed
  have b53: "bit_length M = 53"
    using bit_length_eqI [of 52 M] M by simp
  have kk: "(if even (e - (105 - 53)) then 105 - 53 else 106 - 53) = int k"
    by (simp add: k)
  have ediv: "(e - int k) div 2 = E"
    using E(1) by simp
  have "sqrt_finite M e = pack False m' E"
    unfolding sqrt_finite_def b53 Let_def kk ediv
    by (simp add: N0_def [symmetric] q_def [symmetric] m'_def)
  also have "\<dots> = Finite False m' E"
    using m'lt E(2) by (simp add: pack_def Let_def)
  finally have sf: "sqrt_finite M e = Finite False m' E" .
  have "m' div P = K"
  proof (rule int_div_pos_eq [of _ _ _ "m' - P * K"])
    show "m' = P * K + (m' - P * K)" by simp
    show "0 \<le> m' - P * K"
      using lo m'q(1) by (simp add: mult.commute)
    show "m' - P * K < P"
      using up m'q(2) by (simp add: A_def algebra_simps)
  qed
  then show ?thesis
    using E(2) by (simp add: sf P)
qed


lemma normal_mantissa:
  fixes n :: int
  assumes "2 ^ k \<le> n" and "n < 2 ^ Suc k" and "k \<le> 52"
  shows "2 ^ 52 \<le> n * 2 ^ (52 - k)" and "n * 2 ^ (52 - k) < 2 ^ 53"
proof -
  have ex: "k + (52 - k) = 52" "Suc k + (52 - k) = 53"
    using assms(3) by simp_all
  have p52: "(2::int) ^ k * 2 ^ (52 - k) = 2 ^ 52"
    by (simp only: power_add [symmetric] ex)
  have p53: "(2::int) ^ Suc k * 2 ^ (52 - k) = 2 ^ 53"
    by (simp only: power_add [symmetric] ex)
  have "2 ^ k * 2 ^ (52 - k) \<le> n * 2 ^ (52 - k)"
    using assms(1) by (rule mult_right_mono) simp
  then show "2 ^ 52 \<le> n * 2 ^ (52 - k)"
    by (simp only: p52)
  have "n * 2 ^ (52 - k) < 2 ^ Suc k * 2 ^ (52 - k)"
    using assms(2) by (rule mult_strict_right_mono) simp
  then show "n * 2 ^ (52 - k) < 2 ^ 53"
    by (simp only: p53)
qed

lemma floor_sqrt_half_bounds:
  fixes n :: int
  assumes "0 \<le> n" and "K = \<lfloor>sqrt (real_of_int n / 2)\<rfloor>"
  shows "0 \<le> K" and "2 * (K * K) \<le> n" and "n < 2 * ((K + 1) * (K + 1))"
proof -
  define x where "x = real_of_int n / 2"
  have x0: "0 \<le> x" using assms(1) by (simp add: x_def)
  have s0: "0 \<le> sqrt x" using x0 by simp
  have K: "of_int K \<le> sqrt x" "sqrt x < of_int K + 1"
    using assms(2) by (simp_all add: x_def)
  have ss: "sqrt x * sqrt x = x" using x0 by simp
  show k0: "0 \<le> K"
    using s0 assms(2) by (simp add: x_def)
  have k0': "0 \<le> real_of_int K"
    using k0 by simp
  from K(1) K(1) s0 k0' have "of_int K * of_int K \<le> sqrt x * sqrt x"
    by (rule mult_mono)
  then have "real_of_int K * real_of_int K \<le> x"
    unfolding ss .
  then have "2 * (real_of_int K * real_of_int K) \<le> real_of_int n"
    by (simp add: x_def)
  then have "real_of_int (2 * (K * K)) \<le> real_of_int n"
    by simp
  then show "2 * (K * K) \<le> n"
    by (simp only: of_int_le_iff)
  from K(2) K(2) s0 s0 have "sqrt x * sqrt x < (of_int K + 1) * (of_int K + 1)"
    by (rule mult_strict_mono')
  then have "x < (real_of_int K + 1) * (real_of_int K + 1)"
    unfolding ss .
  then have "real_of_int n < 2 * ((real_of_int K + 1) * (real_of_int K + 1))"
    by (simp add: x_def)
  then have "real_of_int n < real_of_int (2 * ((K + 1) * (K + 1)))"
    by simp
  then show "n < 2 * ((K + 1) * (K + 1))"
    by (simp only: of_int_less_iff)
qed

lemma problem_size_int_count:
  assumes "100 \<le> n" and "n \<le> 10000000"
  shows "problem_size (double_of_int n) = Inr \<lfloor>sqrt (real_of_int n / 2)\<rfloor>"
proof -
  have pos: "0 < n" using assms(1) by simp
  define k where "k = nat (bit_length n - 1)"
  from bit_length_bounds [OF pos]
  have bb: "0 < bit_length n" "2 ^ nat (bit_length n - 1) \<le> n" "n < 2 ^ nat (bit_length n)"
    by simp_all
  have sk: "nat (bit_length n) = Suc k"
    using bb(1) by (simp add: k_def)
  have kb: "2 ^ k \<le> n" "n < 2 ^ Suc k"
    using bb(2,3) by (simp_all only: k_def [symmetric] sk)
  have "(2::int) ^ k < 2 ^ 24"
    using kb(1) assms(2) by simp
  then have "k < 24"
    by (rule power_less_imp_less_exp [rotated]) simp
  then have k23: "k \<le> 23" by simp
  have "(2::int) ^ 6 < 2 ^ Suc k"
    using kb(2) assms(1) by simp
  then have "6 < Suc k"
    by (rule power_less_imp_less_exp [rotated]) simp
  then have k6: "6 \<le> k" by simp
  define M where "M = n * 2 ^ (52 - k)"
  have M: "2 ^ 52 \<le> M" "M < 2 ^ 53"
    using normal_mantissa [OF kb] k23 by (simp_all add: M_def)
  have d: "double_of_int n = Finite False M (int k - 52)"
    using double_of_int_normal [OF kb] k23 by (simp add: M_def)
  have h: "np_true_divide (Finite False M (int k - 52)) (double_of_int 2)
             = Finite False M (int k - 52 - 1)"
    using M k6 k23 by (intro halve_normal) simp_all
  have M0: "M \<noteq> 0" using M(1) by simp
  have ps: "problem_size (double_of_int n) = py_int (sqrt_finite M (int k - 53))"
    using M0 by (simp add: problem_size_def d h)
  define K where "K = \<lfloor>sqrt (real_of_int n / 2)\<rfloor>"
  have "0 \<le> n" using pos by simp
  from floor_sqrt_half_bounds [OF this K_def]
  have K: "0 \<le> K" "2 * (K * K) \<le> n" "n < 2 * ((K + 1) * (K + 1))" .
  have "real_of_int n / 2 < 2237\<^sup>2"
    using assms(2) by simp
  then have "sqrt (real_of_int n / 2) < 2237"
    using pos by (intro real_less_lsqrt) simp_all
  then have "K < 2237"
    by (simp add: K_def floor_less_iff)
  then have K4: "4 * (K + 1) \<le> 2 ^ 14"
    by simp
  define k' :: nat where "k' = (if even (int k - 53 - 52) then 52 else 53)"
  define E where "E = (int k - 53 - int k') div 2"
  have ev: "even (int k - 53 - int k')"
    by (simp add: k'_def)
  then have E2: "2 * E = int k - 53 - int k'"
    by (simp add: E_def)
  have k'b: "52 \<le> k'" "k' \<le> 53"
    by (simp_all add: k'_def)
  have En: "E \<le> - 41"
    using E2 k'b k23 by linarith
  then have E0: "E < 0" by simp
  define P :: int where "P = 2 ^ nat (- E)"
  have "(2::int) ^ 14 \<le> 2 ^ nat (- E)"
    using En by (intro power_increasing) simp_all
  then have KP: "4 * (K + 1) \<le> P"
    using K4 by (simp add: P_def)
  have ex: "nat (- E) + nat (- E) = Suc ((52 - k) + k')"
    using E2 k23 k'b En by linarith
  have "P * P = 2 ^ Suc ((52 - k) + k')"
    by (simp only: P_def power_add [symmetric] ex)
  then have PP: "P * P = 2 * (2 ^ (52 - k) * 2 ^ k')"
    by (simp add: power_add)
  have N: "2 * (M * 2 ^ k') = n * (P * P)"
    unfolding PP M_def by (simp add: algebra_simps)
  have "py_int (sqrt_finite M (int k - 53)) = Inr K"
    using M k'_def E2 E0 P_def N K KP by (rule sqrt_finite_floor)
  then show ?thesis
    by (simp add: ps K_def)
qed

section \<open>Evaluating the sweep\<close>

lemma elements_eval:
  "elements =
     [Finite False 7036874417766400 (- 46), Finite False 8796093022208000 (- 43),
      Finite False 5497558138880000 (- 39), Finite False 6871947673600000 (- 36),
      Finite False 8589934592000000 (- 33), Finite False 5368709120000000 (- 29)]"
  by code_simp

lemma sweep_elements_eval: "sweep elements = Inr [7, 22, 70, 223, 707, 2236]"
  by code_simp

lemma problem_size_elements_eval:
  "map problem_size elements = [Inr 7, Inr 22, Inr 70, Inr 223, Inr 707, Inr 2236]"
  by code_simp

lemma double_val_elements:
  "map double_val elements = [100, 1000, 10000, 100000, 1000000, 10000000]"
  by (simp add: elements_eval double_val_def)

lemma floor_sqrt_eq:
  assumes "0 \<le> k" and "of_int (k * k) \<le> x" and "x < of_int ((k + 1) * (k + 1))"
  shows "\<lfloor>sqrt x\<rfloor> = k"
proof -
  have a: "of_int k \<le> sqrt x"
    using assms by (intro real_le_rsqrt) (simp add: power2_eq_square)
  have "(0::real) \<le> of_int (k * k)"
    by (simp only: of_int_0_le_iff zero_le_square)
  then have "0 \<le> x"
    using assms(2) by linarith
  then have b: "sqrt x < of_int k + 1"
    using assms by (intro real_less_lsqrt) (simp_all add: power2_eq_square)
  show ?thesis
    using a b by (simp add: floor_eq_iff)
qed

lemma floor_sqrt_halves:
  "map (\<lambda>x. \<lfloor>sqrt (x / 2)\<rfloor>) [100, 1000, 10000, 100000, 1000000, 10000000 :: real] =
     [7, 22, 70, 223, 707, 2236]"
proof -
  have "\<lfloor>sqrt (50 :: real)\<rfloor> = 7" by (rule floor_sqrt_eq) simp_all
  moreover have "\<lfloor>sqrt (500 :: real)\<rfloor> = 22" by (rule floor_sqrt_eq) simp_all
  moreover have "\<lfloor>sqrt (5000 :: real)\<rfloor> = 70" by (rule floor_sqrt_eq) simp_all
  moreover have "\<lfloor>sqrt (50000 :: real)\<rfloor> = 223" by (rule floor_sqrt_eq) simp_all
  moreover have "\<lfloor>sqrt (500000 :: real)\<rfloor> = 707" by (rule floor_sqrt_eq) simp_all
  moreover have "\<lfloor>sqrt (5000000 :: real)\<rfloor> = 2236" by (rule floor_sqrt_eq) simp_all
  ultimately show ?thesis by simp
qed

section \<open>The first piece of a split\<close>

lemma startswith_prefix: "startswith s sep \<longleftrightarrow> prefix sep s"
proof
  assume "startswith s sep"
  then have "take (length sep) s = sep" by (simp add: startswith_def)
  then show "prefix sep s" by (metis take_is_prefix)
next
  assume "prefix sep s"
  then obtain t where "s = sep @ t" by (auto simp: prefix_def)
  then show "startswith s sep" by (simp add: startswith_def)
qed

lemma split_pieces_skip:
  "\<not> prefix sep (c # cs) \<Longrightarrow> split_pieces sep acc (c # cs) = split_pieces sep (c # acc) cs"
  by (subst split_pieces.simps(2)) (simp only: startswith_prefix simp_thms if_False)

lemma split_pieces_cut:
  "sep \<noteq> [] \<Longrightarrow> split_pieces sep acc (sep @ b) = rev acc # split_pieces sep [] b"
proof -
  assume ne: "sep \<noteq> []"
  then obtain x xs where sep: "sep = x # xs"
    by (cases sep) auto
  have "split_pieces sep acc (x # (xs @ b)) =
          rev acc # split_pieces sep [] (drop (length sep) (x # (xs @ b)))"
    by (subst split_pieces.simps(2)) (simp add: startswith_def sep)
  moreover have "drop (length sep) (x # (xs @ b)) = b"
    by (simp add: sep)
  ultimately show ?thesis
    by (simp add: sep)
qed

lemma split_pieces_no_sep:
  "\<not> sublist sep s \<Longrightarrow> split_pieces sep acc s = [rev acc @ s]"
proof (induction s arbitrary: acc)
  case Nil
  then show ?case by simp
next
  case (Cons c cs)
  from Cons.prems have "\<not> prefix sep (c # cs)"
    by (simp add: sublist_Cons_right)
  then have "split_pieces sep acc (c # cs) = split_pieces sep (c # acc) cs"
    by (rule split_pieces_skip)
  moreover from Cons.prems have "\<not> sublist sep cs"
    by (simp add: sublist_Cons_right)
  then have "split_pieces sep (c # acc) cs = [rev (c # acc) @ cs]"
    by (rule Cons.IH)
  ultimately show ?case
    by simp
qed

lemma split_pieces_first:
  assumes "sep \<noteq> []" and "\<not> sublist sep (a @ butlast sep)"
  shows "split_pieces sep acc (a @ sep @ b) = (rev acc @ a) # split_pieces sep [] b"
  using assms(2)
proof (induction a arbitrary: acc)
  case Nil
  then show ?case
    using split_pieces_cut [OF assms(1)] by simp
next
  case (Cons c a)
  have "\<not> prefix sep (c # (a @ sep @ b))"
  proof
    assume "prefix sep (c # (a @ sep @ b))"
    then obtain t where t: "c # (a @ sep @ b) = sep @ t"
      by (auto simp: prefix_def)
    have "butlast sep @ last sep # b = sep @ b"
      using append_butlast_last_id [OF assms(1)]
      by (metis append_Cons append_Nil append_assoc)
    then have "(c # a @ butlast sep) @ (last sep # b) = sep @ t"
      using t by (simp only: append_Cons append_assoc)
    then have "take (length sep) ((c # a @ butlast sep) @ (last sep # b)) = take (length sep) (sep @ t)"
      by (rule arg_cong)
    then have "take (length sep) ((c # a @ butlast sep) @ (last sep # b)) = sep"
      by (simp only: take_append diff_self_eq_0 take_0 append_Nil2 take_all_iff order_refl)
    moreover have "length sep \<le> length (c # a @ butlast sep)"
      by simp
    ultimately have "take (length sep) (c # a @ butlast sep) = sep"
      by (simp only: take_append diff_is_0_eq' take_0 append_Nil2)
    then have "prefix sep ((c # a) @ butlast sep)"
      by (metis take_is_prefix append_Cons)
    then show False
      using Cons.prems by (simp add: sublist_Cons_right)
  qed
  then have "split_pieces sep acc (c # (a @ sep @ b)) = split_pieces sep (c # acc) (a @ sep @ b)"
    by (rule split_pieces_skip)
  moreover have "\<not> sublist sep (a @ butlast sep)"
    using Cons.prems by (simp add: sublist_Cons_right)
  then have "split_pieces sep (c # acc) (a @ sep @ b) = (rev (c # acc) @ a) # split_pieces sep [] b"
    by (rule Cons.IH)
  ultimately show ?case
    by simp
qed

lemma parse_line_no_marker:
  "\<not> sublist ''user'' line \<Longrightarrow> parse_line line = py_float line"
  by (simp add: parse_line_def str_split_def first_item_def split_pieces_no_sep)

lemma parse_line_marker:
  assumes "\<not> sublist ''user'' (a @ ''use'')"
  shows "parse_line (a @ ''user'' @ b) = py_float a"
proof -
  have "split_pieces ''user'' [] (a @ ''user'' @ b) = a # split_pieces ''user'' [] b"
    using split_pieces_first [of "''user''" a "[]" b] assms by simp
  then show ?thesis
    by (simp add: parse_line_def str_split_def first_item_def)
qed


section \<open>The loop and the report\<close>

lemma read_user_time_files:
  "files st1 = files st2 \<Longrightarrow> read_user_time p st1 = read_user_time p st2"
  by (simp add: read_user_time_def)

lemma read_times_Inr:
  "read_times n st = Inr st' \<longleftrightarrow>
     (\<exists>t u. read_user_time (nim_path n) st = Inr t \<and> read_user_time (fenics_path n) st = Inr u
        \<and> st' = st\<lparr>time_nim := time_nim st @ [t], time_fenics := time_fenics st @ [u]\<rparr>)"
proof -
  have f: "read_user_time (fenics_path n) (st\<lparr>time_nim := x\<rparr>) = read_user_time (fenics_path n) st" for x
    by (rule read_user_time_files) simp
  show ?thesis
    by (auto simp: read_times_def Let_def f split: sum.splits)
qed

lemma read_times_Inl:
  "read_times n st = Inl (e, st') \<longleftrightarrow>
     (read_user_time (nim_path n) st = Inl e \<and> st' = st) \<or>
     (\<exists>t. read_user_time (nim_path n) st = Inr t \<and> read_user_time (fenics_path n) st = Inl e
        \<and> st' = st\<lparr>time_nim := time_nim st @ [t]\<rparr>)"
proof -
  have f: "read_user_time (fenics_path n) (st\<lparr>time_nim := x\<rparr>) = read_user_time (fenics_path n) st" for x
    by (rule read_user_time_files) simp
  show ?thesis
    by (auto simp: read_times_def Let_def f split: sum.splits)
qed

lemma body_reuse_Inr:
  "body False spawn fe n st = Inr st' \<longleftrightarrow>
     (\<exists>t u. read_user_time (nim_path n) st = Inr t \<and> read_user_time (fenics_path n) st = Inr u
        \<and> st' = st\<lparr>printed := printed st @ [PrintInt n],
                    time_nim := time_nim st @ [t], time_fenics := time_fenics st @ [u]\<rparr>)"
proof -
  have f: "read_user_time p (st\<lparr>printed := x\<rparr>) = read_user_time p st" for x p
    by (rule read_user_time_files) simp
  show ?thesis
    by (simp add: body_def Let_def read_times_Inr f)
qed

lemma body_reuse_Inl:
  "body False spawn fe n st = Inl (e, st') \<Longrightarrow>
     files st' = files st \<and> spawned st' = spawned st \<and> saved st' = saved st
     \<and> (read_user_time (nim_path n) st = Inl e \<or> read_user_time (fenics_path n) st = Inl e)"
proof -
  have f: "read_user_time p (st\<lparr>printed := x\<rparr>) = read_user_time p st" for x p
    by (rule read_user_time_files) simp
  show "body False spawn fe n st = Inl (e, st') \<Longrightarrow> ?thesis"
    by (auto simp: body_def Let_def read_times_Inl f)
qed


lemma reports_ok_iff:
  "reports_ok ns st \<longleftrightarrow>
     (\<forall>n \<in> set ns. (\<exists>t. read_user_time (nim_path n) st = Inr t)
                   \<and> (\<exists>u. read_user_time (fenics_path n) st = Inr u))"
proof -
  have "\<not> isl r \<longleftrightarrow> (\<exists>t. r = Inr t)" for r :: "error + double"
    by (cases r) simp_all
  then show ?thesis
    by (simp add: reports_ok_def list_all_iff)
qed

lemma loop_reuse_Inr:
  "loop False spawn fe ns st = Inr st' \<Longrightarrow>
     files st' = files st \<and> spawned st' = spawned st \<and> saved st' = saved st
     \<and> printed st' = printed st @ map PrintInt ns
     \<and> (\<exists>ts us. time_nim st' = time_nim st @ ts \<and> time_fenics st' = time_fenics st @ us
           \<and> map (\<lambda>n. read_user_time (nim_path n) st) ns = map Inr ts
           \<and> map (\<lambda>n. read_user_time (fenics_path n) st) ns = map Inr us)"
proof (induction ns arbitrary: st)
  case Nil
  then show ?case by simp
next
  case (Cons n ns)
  from Cons.prems obtain st1 where b: "body False spawn fe n st = Inr st1"
    and l: "loop False spawn fe ns st1 = Inr st'"
    by (auto split: sum.splits)
  from b obtain t u where t: "read_user_time (nim_path n) st = Inr t"
    and u: "read_user_time (fenics_path n) st = Inr u"
    and st1: "st1 = st\<lparr>printed := printed st @ [PrintInt n],
                time_nim := time_nim st @ [t], time_fenics := time_fenics st @ [u]\<rparr>"
    by (auto simp: body_reuse_Inr)
  have f: "files st1 = files st"
    by (simp add: st1)
  have r: "read_user_time p st1 = read_user_time p st" for p
    using f by (rule read_user_time_files)
  from Cons.IH [OF l, unfolded r] obtain ts us where
    frame: "files st' = files st1" "spawned st' = spawned st1" "saved st' = saved st1"
      "printed st' = printed st1 @ map PrintInt ns"
    and ts: "time_nim st' = time_nim st1 @ ts"
      "map (\<lambda>n. read_user_time (nim_path n) st) ns = map Inr ts"
    and us: "time_fenics st' = time_fenics st1 @ us"
      "map (\<lambda>n. read_user_time (fenics_path n) st) ns = map Inr us"
    by blast
  have "time_nim st' = time_nim st @ (t # ts)" "time_fenics st' = time_fenics st @ (u # us)"
    using ts us by (simp_all add: st1)
  moreover have "map (\<lambda>n. read_user_time (nim_path n) st) (n # ns) = map Inr (t # ts)"
    "map (\<lambda>n. read_user_time (fenics_path n) st) (n # ns) = map Inr (u # us)"
    using ts us t u by simp_all
  ultimately have "\<exists>ts us. time_nim st' = time_nim st @ ts \<and> time_fenics st' = time_fenics st @ us
           \<and> map (\<lambda>n. read_user_time (nim_path n) st) (n # ns) = map Inr ts
           \<and> map (\<lambda>n. read_user_time (fenics_path n) st) (n # ns) = map Inr us"
    by blast
  then show ?case
    using frame by (simp add: st1)
qed

lemma loop_reuse_Inl:
  "loop False spawn fe ns st = Inl (e, st') \<Longrightarrow>
     files st' = files st \<and> spawned st' = spawned st \<and> saved st' = saved st
     \<and> (\<exists>n \<in> set ns. read_user_time (nim_path n) st = Inl e
                      \<or> read_user_time (fenics_path n) st = Inl e)"
proof (induction ns arbitrary: st)
  case Nil
  then show ?case by simp
next
  case (Cons n ns)
  show ?case
  proof (cases "body False spawn fe n st")
    case (Inl failure)
    then have "body False spawn fe n st = Inl (e, st')"
      using Cons.prems by simp
    then show ?thesis
      using body_reuse_Inl by fastforce
  next
    case (Inr st1)
    then have l: "loop False spawn fe ns st1 = Inl (e, st')"
      using Cons.prems by simp
    from Inr have f: "files st1 = files st" "spawned st1 = spawned st" "saved st1 = saved st"
      by (auto simp: body_reuse_Inr)
    have r: "read_user_time p st1 = read_user_time p st" for p
      using f(1) by (rule read_user_time_files)
    show ?thesis
      using Cons.IH [OF l, unfolded r] f by auto
  qed
qed

lemma loop_reuse_total:
  "reports_ok ns st \<Longrightarrow> \<exists>st'. loop False spawn fe ns st = Inr st'"
proof (induction ns arbitrary: st)
  case Nil
  then show ?case by simp
next
  case (Cons n ns)
  from Cons.prems obtain t u where t: "read_user_time (nim_path n) st = Inr t"
    and u: "read_user_time (fenics_path n) st = Inr u"
    by (auto simp: reports_ok_iff)
  then obtain st1 where b: "body False spawn fe n st = Inr st1"
    by (simp add: body_reuse_Inr)
  then have f: "files st1 = files st"
    by (auto simp: body_reuse_Inr)
  have r: "read_user_time p st1 = read_user_time p st" for p
    using f by (rule read_user_time_files)
  have "reports_ok ns st1"
    using Cons.prems by (simp add: reports_ok_iff r)
  then show ?case
    using Cons.IH b by simp
qed

lemma loop_reuse_ok_iff:
  "(\<exists>st'. loop False spawn fe ns st = Inr st') \<longleftrightarrow> reports_ok ns st"
proof
  assume "\<exists>st'. loop False spawn fe ns st = Inr st'"
  then obtain st' ts us where
    "map (\<lambda>n. read_user_time (nim_path n) st) ns = map Inr ts"
    "map (\<lambda>n. read_user_time (fenics_path n) st) ns = map Inr us"
    using loop_reuse_Inr by blast
  then have "\<forall>n \<in> set ns. read_user_time (nim_path n) st \<in> set (map Inr ts) \<and>
      read_user_time (fenics_path n) st \<in> set (map Inr us)"
    by (metis (no_types, lifting) image_eqI list.set_map)
  then show "reports_ok ns st"
    by (auto simp: reports_ok_iff)
next
  assume "reports_ok ns st"
  then show "\<exists>st'. loop False spawn fe ns st = Inr st'"
    by (rule loop_reuse_total)
qed


lemma subprocess_run_Inr:
  "subprocess_run spawn c st = Inr st' \<Longrightarrow>
     spawned st' = spawned st @ [c] \<and> saved st' = saved st \<and> printed st' = printed st
     \<and> time_nim st' = time_nim st \<and> time_fenics st' = time_fenics st"
  by (auto simp: subprocess_run_def Let_def split: sum.splits)

lemma subprocess_run_Inl:
  "subprocess_run spawn c st = Inl (e, st') \<Longrightarrow>
     spawned st' = spawned st @ [c] \<and> saved st' = saved st"
  by (auto simp: subprocess_run_def Let_def split: sum.splits)

lemma read_times_frame:
  "read_times n st = Inr st' \<Longrightarrow>
     spawned st' = spawned st \<and> saved st' = saved st
     \<and> length (time_nim st') = Suc (length (time_nim st))
     \<and> length (time_fenics st') = Suc (length (time_fenics st))"
  by (auto simp: read_times_Inr)

lemma read_times_frame_Inl:
  "read_times n st = Inl (e, st') \<Longrightarrow> spawned st' = spawned st \<and> saved st' = saved st"
  by (auto simp: read_times_Inl)

lemma body_Inr:
  assumes "body run spawn fe n st = Inr st'"
  shows "saved st' = saved st"
    and "length (time_nim st') = Suc (length (time_nim st))"
    and "length (time_fenics st') = Suc (length (time_fenics st))"
    and "spawned st' = spawned st @ (if run then [nim_call n, fenics_call fe n] else [])"
proof -
  let ?st1 = "st\<lparr>printed := printed st @ [PrintInt n]\<rparr>"
  have "saved st' = saved st \<and> length (time_nim st') = Suc (length (time_nim st))
      \<and> length (time_fenics st') = Suc (length (time_fenics st))
      \<and> spawned st' = spawned st @ (if run then [nim_call n, fenics_call fe n] else [])"
  proof (cases run)
    case False
    then have "read_times n ?st1 = Inr st'"
      using assms by (simp add: body_def Let_def)
    from read_times_frame [OF this] show ?thesis
      using False by simp
  next
    case True
    then obtain st2 st3 where
      a: "subprocess_run spawn (nim_call n) ?st1 = Inr st2" and
      b: "subprocess_run spawn (fenics_call fe n) st2 = Inr st3" and
      c: "read_times n st3 = Inr st'"
      using assms by (auto simp: body_def Let_def split: sum.splits)
    show ?thesis
      using subprocess_run_Inr [OF a] subprocess_run_Inr [OF b] read_times_frame [OF c] True
      by simp
  qed
  then show "saved st' = saved st"
    and "length (time_nim st') = Suc (length (time_nim st))"
    and "length (time_fenics st') = Suc (length (time_fenics st))"
    and "spawned st' = spawned st @ (if run then [nim_call n, fenics_call fe n] else [])"
    by simp_all
qed

lemma body_Inl:
  assumes "body run spawn fe n st = Inl (e, st')"
  shows "saved st' = saved st"
    and "set (spawned st') \<subseteq> set (spawned st) \<union> (if run then {nim_call n, fenics_call fe n} else {})"
proof -
  let ?st1 = "st\<lparr>printed := printed st @ [PrintInt n]\<rparr>"
  have "saved st' = saved st \<and>
     set (spawned st') \<subseteq> set (spawned st) \<union> (if run then {nim_call n, fenics_call fe n} else {})"
  proof (cases run)
    case False
    then have "read_times n ?st1 = Inl (e, st')"
      using assms by (simp add: body_def Let_def)
    from read_times_frame_Inl [OF this] show ?thesis
      using False by simp
  next
    case True
    show ?thesis
    proof (cases "subprocess_run spawn (nim_call n) ?st1")
      case (Inl f)
      then have "subprocess_run spawn (nim_call n) ?st1 = Inl (e, st')"
        using assms True by (simp add: body_def Let_def)
      from subprocess_run_Inl [OF this] show ?thesis
        using True by auto
    next
      case a: (Inr st2)
      show ?thesis
      proof (cases "subprocess_run spawn (fenics_call fe n) st2")
        case (Inl f)
        then have "subprocess_run spawn (fenics_call fe n) st2 = Inl (e, st')"
          using assms True a by (simp add: body_def Let_def)
        from subprocess_run_Inl [OF this] subprocess_run_Inr [OF a] show ?thesis
          using True by auto
      next
        case b: (Inr st3)
        then have "read_times n st3 = Inl (e, st')"
          using assms True a by (simp add: body_def Let_def)
        from read_times_frame_Inl [OF this] subprocess_run_Inr [OF a] subprocess_run_Inr [OF b]
        show ?thesis
          using True by auto
      qed
    qed
  qed
  then show "saved st' = saved st"
    and "set (spawned st') \<subseteq> set (spawned st) \<union> (if run then {nim_call n, fenics_call fe n} else {})"
    by simp_all
qed

lemma loop_Inr:
  "loop run spawn fe ns st = Inr st' \<Longrightarrow>
     saved st' = saved st
     \<and> length (time_nim st') = length (time_nim st) + length ns
     \<and> length (time_fenics st') = length (time_fenics st) + length ns
     \<and> spawned st' =
         spawned st @ (if run then concat (map (\<lambda>n. [nim_call n, fenics_call fe n]) ns) else [])"
proof (induction ns arbitrary: st)
  case Nil
  then show ?case by simp
next
  case (Cons n ns)
  from Cons.prems obtain st1 where b: "body run spawn fe n st = Inr st1"
    and l: "loop run spawn fe ns st1 = Inr st'"
    by (auto split: sum.splits)
  show ?case
    using Cons.IH [OF l] body_Inr [OF b] by simp
qed

lemma loop_Inl:
  "loop run spawn fe ns st = Inl (e, st') \<Longrightarrow>
     saved st' = saved st
     \<and> set (spawned st') \<subseteq>
         set (spawned st) \<union> (if run then (\<Union>n \<in> set ns. {nim_call n, fenics_call fe n}) else {})"
proof (induction ns arbitrary: st)
  case Nil
  then show ?case by simp
next
  case (Cons n ns)
  show ?case
  proof (cases "body run spawn fe n st")
    case (Inl failure)
    then have "body run spawn fe n st = Inl (e, st')"
      using Cons.prems by simp
    from body_Inl [OF this] show ?thesis
      by auto
  next
    case (Inr st1)
    then have l: "loop run spawn fe ns st1 = Inl (e, st')"
      using Cons.prems by simp
    show ?thesis
      using Cons.IH [OF l] body_Inr [OF Inr] by (auto split: if_splits)
  qed
qed

lemma report_total:
  assumes "length (time_nim st) = length elements" and "length (time_fenics st) = length elements"
  shows "report st =
     Inr (st\<lparr>printed := printed st @
                [PrintArray (time_nim st), PrintArray (time_fenics st),
                 PrintSpeedup (map2 np_true_divide (time_fenics st) (time_nim st))],
             saved := saved st @
                [(''comparison.png'',
                  \<lparr>curves = [\<lparr>xs = elements, ys = time_nim st, label = ''Nimfem''\<rparr>,
                             \<lparr>xs = elements, ys = time_fenics st, label = ''FEniCS''\<rparr>],
                   xlabel = ''Number of Elements'', ylabel = ''Time [s]'', legend = True\<rparr>)]\<rparr>)"
  using assms by (simp add: report_def loglog_def array_divide_def empty_figure_def Let_def)

lemma report_Inl:
  "report st = Inl (e, st') \<Longrightarrow>
     saved st' = saved st \<and> spawned st' = spawned st \<and> files st' = files st"
  by (auto simp: report_def loglog_def array_divide_def Let_def split: if_splits sum.splits)

lemma report_Inr:
  "report st = Inr st' \<Longrightarrow>
     (\<exists>fig. saved st' = saved st @ [(''comparison.png'', fig)])
     \<and> spawned st' = spawned st \<and> files st' = files st"
  by (auto simp: report_def loglog_def array_divide_def Let_def split: if_splits sum.splits)


section \<open>The script as a whole\<close>

lemma sweep_length: "sweep ns = Inr ks \<Longrightarrow> length ks = length ns"
  by (induction ns arbitrary: ks) (auto split: sum.splits)

lemma harness_unfold:
  "sweep elements = Inr sizes \<Longrightarrow>
     harness run os_environ spawn fs =
       (case loop run spawn (os_environ(''OMP_NUM_THREADS'' \<mapsto> ''1'')) sizes (initial fs) of
          Inl failure \<Rightarrow> Inl failure
        | Inr st \<Rightarrow> report st)"
  by (simp add: harness_def Let_def)

lemma loop_reuse_indep:
  "loop False spawn fe ns st = loop False spawn' fe' ns st"
proof (induction ns arbitrary: st)
  case Nil
  show ?case by simp
next
  case (Cons n ns)
  have "body False spawn fe n st = body False spawn' fe' n st"
    by (simp add: body_def)
  then show ?case
    using Cons.IH by (simp split: sum.splits)
qed

lemma loop_append:
  "loop run spawn fe (ns @ ms) st =
     (case loop run spawn fe ns st of
        Inl failure \<Rightarrow> Inl failure
      | Inr st1 \<Rightarrow> loop run spawn fe ms st1)"
  by (induction ns arbitrary: st) (auto split: sum.splits)

lemma body_reads:
  assumes "body run spawn fe n st = Inr st'"
  shows "\<exists>t u. time_nim st' = time_nim st @ [t] \<and> time_fenics st' = time_fenics st @ [u]
           \<and> read_user_time (nim_path n) st' = Inr t
           \<and> read_user_time (fenics_path n) st' = Inr u"
proof -
  let ?st1 = "st\<lparr>printed := printed st @ [PrintInt n]\<rparr>"
  have rt: "\<exists>t u. time_nim st' = time_nim s @ [t] \<and> time_fenics st' = time_fenics s @ [u]
           \<and> read_user_time (nim_path n) st' = Inr t
           \<and> read_user_time (fenics_path n) st' = Inr u"
    if "read_times n s = Inr st'" for s
  proof -
    from that obtain t u where t: "read_user_time (nim_path n) s = Inr t"
      and u: "read_user_time (fenics_path n) s = Inr u"
      and st': "st' = s\<lparr>time_nim := time_nim s @ [t], time_fenics := time_fenics s @ [u]\<rparr>"
      by (auto simp: read_times_Inr)
    have "files st' = files s"
      by (simp add: st')
    then have "read_user_time p st' = read_user_time p s" for p
      by (rule read_user_time_files)
    then show ?thesis
      using t u by (simp add: st')
  qed
  show ?thesis
  proof (cases run)
    case False
    then have "read_times n ?st1 = Inr st'"
      using assms by (simp add: body_def Let_def)
    from rt [OF this] show ?thesis
      by simp
  next
    case True
    then obtain st2 st3 where
      a: "subprocess_run spawn (nim_call n) ?st1 = Inr st2" and
      b: "subprocess_run spawn (fenics_call fe n) st2 = Inr st3" and
      c: "read_times n st3 = Inr st'"
      using assms by (auto simp: body_def Let_def split: sum.splits)
    show ?thesis
      using rt [OF c] subprocess_run_Inr [OF a] subprocess_run_Inr [OF b] by simp
  qed
qed

lemma loop_extends:
  "loop run spawn fe ns st = Inr st' \<Longrightarrow>
     \<exists>ts us. time_nim st' = time_nim st @ ts \<and> time_fenics st' = time_fenics st @ us"
proof (induction ns arbitrary: st)
  case Nil
  then show ?case by simp
next
  case (Cons n ns)
  from Cons.prems obtain st1 where b: "body run spawn fe n st = Inr st1"
    and l: "loop run spawn fe ns st1 = Inr st'"
    by (auto split: sum.splits)
  from body_reads [OF b] Cons.IH [OF l] show ?case
    by auto
qed

lemma nth_pairs:
  "i < length ns \<Longrightarrow>
     concat (map (\<lambda>n. [f n, g n]) ns) ! (2 * i) = f (ns ! i)
     \<and> concat (map (\<lambda>n. [f n, g n]) ns) ! (2 * i + 1) = g (ns ! i)"
proof (induction ns arbitrary: i)
  case Nil
  then show ?case by simp
next
  case (Cons n ns)
  show ?case
  proof (cases i)
    case 0
    then show ?thesis by simp
  next
    case (Suc j)
    then have "j < length ns"
      using Cons.prems by simp
    from Cons.IH [OF this] show ?thesis
      by (simp add: Suc)
  qed
qed

lemma length_pairs: "length (concat (map (\<lambda>n. [f n, g n]) ns)) = 2 * length ns"
  by (induction ns) simp_all

lemma np_true_divide_zero:
  "np_true_divide x (Finite s 0 e) = NaN \<or> (\<exists>t. np_true_divide x (Finite s 0 e) = Infinity t)"
  by (cases x) simp_all

lemma report_times:
  "report st = Inr st' \<Longrightarrow> time_nim st' = time_nim st \<and> time_fenics st' = time_fenics st"
  by (auto simp: report_def loglog_def array_divide_def Let_def split: if_splits sum.splits)

lemma initial_fields:
  "files (initial fs) = fs" "spawned (initial fs) = []" "saved (initial fs) = []"
  "printed (initial fs) = []" "time_nim (initial fs) = []" "time_fenics (initial fs) = []"
  by (simp_all add: initial_def)

lemma exit_status_simps:
  "exit_status (Inl f) = 1" "exit_status (Inr st) = 0"
  by (simp_all add: exit_status_def)

lemma harness_reuse_indep:
  "harness False os_environ spawn fs = harness False os_environ' spawn' fs"
proof -
  have "loop False spawn (os_environ(''OMP_NUM_THREADS'' \<mapsto> ''1'')) ns st
      = loop False spawn' (os_environ'(''OMP_NUM_THREADS'' \<mapsto> ''1'')) ns st" for ns st
    by (rule loop_reuse_indep)
  then show ?thesis
    by (simp only: harness_def Let_def)
qed

lemma call_shapes:
  "argv (nim_call n) = [''/usr/bin/time'', ''-o'', ''timings/nim'' @ str_int n @ ''.txt'',
                        ''./poisson'', str_int n]"
  "child_env os_environ (nim_call n) = os_environ"
  "argv (fenics_call fe n) = [''/usr/bin/time'', ''-o'', ''timings/fenics'' @ str_int n @ ''.txt'',
                        ''python3'', ''poisson.py'', str_int n]"
  "child_env os_environ (fenics_call fe n) = fe"
  by (simp_all add: nim_call_def fenics_call_def child_env_def nim_path_def fenics_path_def)

section \<open>The exceptions of the parser\<close>

lemma float_from_string_inner_error:
  "float_from_string_inner s = Inl e \<Longrightarrow> e = ValueError"
  by (auto simp: float_from_string_inner_def Let_def split: if_splits prod.splits)

lemma py_float_error: "py_float s = Inl e \<Longrightarrow> e = ValueError"
  by (auto simp: py_float_def Let_def split: if_splits option.splits
      dest: float_from_string_inner_error)

lemma split_pieces_nonempty: "split_pieces sep acc s \<noteq> []"
proof (induction sep acc s rule: split_pieces.induct)
  case (1 sep acc)
  then show ?case by simp
next
  case (2 sep acc c cs)
  then show ?case
    by (subst split_pieces.simps(2)) (simp split: if_splits)
qed

lemma parse_line_error: "parse_line line = Inl e \<Longrightarrow> e = ValueError"
proof -
  assume a: "parse_line line = Inl e"
  obtain x xs where "split_pieces ''user'' [] line = x # xs"
    using split_pieces_nonempty [of "''user''" "[]" line] by (cases "split_pieces ''user'' [] line") auto
  then have "parse_line line = py_float x"
    by (simp add: parse_line_def str_split_def first_item_def)
  then show ?thesis
    using a py_float_error by simp
qed

lemma read_user_time_error:
  "read_user_time p st = Inl e \<Longrightarrow> e = FileNotFoundError \<or> e = ValueError"
  by (auto simp: read_user_time_def split: option.splits dest: parse_line_error)

section \<open>Sweep Generator: the sizes\<close>

text \<open>
  C1. For every target element count \<open>n\<close> from \<open>10^2\<close> to \<open>10^7\<close>, the size computed by
  \<^verbatim>\<open>int(np.sqrt(n / 2))\<close> in binary64 arithmetic is the integer part of the real square
  root of \<open>n / 2\<close>; so it is for the six configured counts \<open>10^2, ..., 10^7\<close>. The count
  100 gives size 7 and the count 10,000,000 gives size 2236.
\<close>

theorem problem_size_floor_sqrt:
  "(\<forall>n. 100 \<le> n \<and> n \<le> 10000000 \<longrightarrow>
        problem_size (double_of_int n) = Inr \<lfloor>sqrt (real_of_int n / 2)\<rfloor>)
   \<and> (\<forall>n \<in> set elements. problem_size n = Inr \<lfloor>sqrt (double_val n / 2)\<rfloor>)
   \<and> map double_val elements = [100, 1000, 10000, 100000, 1000000, 10000000]
   \<and> problem_size (double_of_int 100) = Inr 7
   \<and> problem_size (double_of_int 10000000) = Inr 2236"
proof -
  have "map (\<lambda>n. \<lfloor>sqrt (double_val n / 2)\<rfloor>) elements =
          map (\<lambda>x. \<lfloor>sqrt (x / 2)\<rfloor>) (map double_val elements)"
    by (simp add: comp_def)
  then have "map (\<lambda>n. \<lfloor>sqrt (double_val n / 2)\<rfloor>) elements = [7, 22, 70, 223, 707, 2236]"
    by (simp only: double_val_elements floor_sqrt_halves)
  then have "map (\<lambda>n. Inr \<lfloor>sqrt (double_val n / 2)\<rfloor> :: error + int) elements =
               map Inr [7, 22, 70, 223, 707, 2236]"
    by (simp only: map_map [symmetric, of Inr "\<lambda>n. \<lfloor>sqrt (double_val n / 2)\<rfloor>", unfolded comp_def])
  then have "map problem_size elements = map (\<lambda>n. Inr \<lfloor>sqrt (double_val n / 2)\<rfloor>) elements"
    by (simp add: problem_size_elements_eval)
  then have "\<forall>n \<in> set elements. problem_size n = Inr \<lfloor>sqrt (double_val n / 2)\<rfloor>"
    by (simp only: map_eq_conv)
  moreover have "problem_size (double_of_int 100) = Inr 7"
    by code_simp
  moreover have "problem_size (double_of_int 10000000) = Inr 2236"
    by code_simp
  moreover have "\<forall>n. 100 \<le> n \<and> n \<le> 10000000 \<longrightarrow>
        problem_size (double_of_int n) = Inr \<lfloor>sqrt (real_of_int n / 2)\<rfloor>"
    using problem_size_int_count by blast
  ultimately show ?thesis
    using double_val_elements by blast
qed

theorem problem_size_floor_sqrt_witness:
  "100 \<le> (12345 :: int) \<and> (12345 :: int) \<le> 10000000
   \<and> problem_size (double_of_int 12345) = Inr \<lfloor>sqrt (real_of_int 12345 / 2)\<rfloor>
   \<and> problem_size (double_of_int 12345) = Inr 78
   \<and> double_of_int 100 \<in> set elements
   \<and> problem_size (double_of_int 100) = Inr \<lfloor>sqrt (double_val (double_of_int 100) / 2)\<rfloor>
   \<and> \<lfloor>sqrt (double_val (double_of_int 100) / 2)\<rfloor> = 7"
proof -
  have r: "100 \<le> (12345 :: int) \<and> (12345 :: int) \<le> 10000000"
    by simp
  have m: "double_of_int 100 \<in> set elements"
    by code_simp
  have "problem_size (double_of_int 12345) = Inr \<lfloor>sqrt (real_of_int 12345 / 2)\<rfloor>"
    using problem_size_floor_sqrt r by blast
  moreover have "problem_size (double_of_int 12345) = Inr 78"
    by code_simp
  moreover have "problem_size (double_of_int 100) = Inr \<lfloor>sqrt (double_val (double_of_int 100) / 2)\<rfloor>"
    using problem_size_floor_sqrt m by blast
  moreover have "problem_size (double_of_int 100) = Inr 7"
    by code_simp
  ultimately show ?thesis
    using r m by simp
qed

text \<open>
  C3. The sizes generated for the six configured counts are 7, 22, 70, 223, 707 and 2236,
  in this order: the fourth is 223, the integer part of the square root of 50000.
\<close>

theorem sweep_sizes_sequence:
  "sweep elements = Inr [7, 22, 70, 223, 707, 2236]"
  by code_simp

theorem sweep_sizes_not_224:
  "sweep elements \<noteq> Inr [7, 22, 70, 224, 707, 2236]"
  by code_simp

section \<open>Timing Parser: the first line\<close>

text \<open>
  C6. A timing report whose first line is \<^verbatim>\<open>3.140000user 0.010000system...\<close> parses to
  the binary64 number that the literal \<^verbatim>\<open>3.14\<close> denotes, the one nearest to 3.14.
\<close>

theorem roundtrip_3_14:
  "read_user_time path (initial [path \<mapsto> ''3.140000user 0.010000system...''])
     = Inr (Finite False 7070651414971679 (- 51))
   \<and> py_float ''3.14'' = Inr (Finite False 7070651414971679 (- 51))
   \<and> \<bar>double_val (Finite False 7070651414971679 (- 51)) - 314 / 100\<bar> \<le> 1 / 2 ^ 52"
proof -
  have "parse_line (readline ''3.140000user 0.010000system...'')
          = Inr (Finite False 7070651414971679 (- 51))"
    by code_simp
  then have "read_user_time path (initial [path \<mapsto> ''3.140000user 0.010000system...''])
     = Inr (Finite False 7070651414971679 (- 51))"
    by (simp add: read_user_time_def initial_def)
  moreover have "py_float ''3.14'' = Inr (Finite False 7070651414971679 (- 51))"
    by code_simp
  moreover have "\<bar>double_val (Finite False 7070651414971679 (- 51)) - 314 / 100\<bar> \<le> 1 / 2 ^ 52"
    by (simp add: double_val_def)
  ultimately show ?thesis
    by blast
qed

text \<open>
  C2, as amended. When the first line of a timing report holds no \<^verbatim>\<open>user\<close> and
  \<^verbatim>\<open>float\<close> rejects the whole line, reading the report raises \<^verbatim>\<open>ValueError\<close> and
  gives no measurement.
\<close>

theorem unmarked_invalid_line_fails:
  assumes "files st path = Some content"
    and "\<not> sublist ''user'' (readline content)"
    and "py_float (readline content) = Inl err"
  shows "read_user_time path st = Inl ValueError"
proof -
  have "parse_line (readline content) = py_float (readline content)"
    using assms(2) by (rule parse_line_no_marker)
  moreover have "err = ValueError"
    using assms(3) by (rule py_float_error)
  ultimately show ?thesis
    using assms(1,3) by (simp add: read_user_time_def)
qed

theorem unmarked_invalid_line_fails_witness:
  "files (initial [''timings/nim7.txt'' \<mapsto> ''no marker here'']) ''timings/nim7.txt''
      = Some ''no marker here''
   \<and> \<not> sublist ''user'' (readline ''no marker here'')
   \<and> py_float (readline ''no marker here'') = Inl ValueError
   \<and> read_user_time ''timings/nim7.txt'' (initial [''timings/nim7.txt'' \<mapsto> ''no marker here''])
       = Inl ValueError"
proof -
  have a: "files (initial [''timings/nim7.txt'' \<mapsto> ''no marker here'']) ''timings/nim7.txt''
      = Some ''no marker here''"
    by (simp add: initial_def)
  have b: "\<not> sublist ''user'' (readline ''no marker here'')"
    by code_simp
  have c: "py_float (readline ''no marker here'') = Inl ValueError"
    by code_simp
  show ?thesis
    using a b c unmarked_invalid_line_fails [OF a b c] by blast
qed

text \<open>
  C2 as stated fails: the line \<^verbatim>\<open>3.14\<close> holds no \<^verbatim>\<open>user\<close>, and it parses.
\<close>

theorem unmarked_float_parses:
  "\<not> sublist ''user'' (readline ''3.14'')
   \<and> read_user_time ''timings/nim7.txt'' (initial [''timings/nim7.txt'' \<mapsto> ''3.14''])
       = Inr (Finite False 7070651414971679 (- 51))"
proof -
  have "\<not> sublist ''user'' (readline ''3.14'')"
    by code_simp
  moreover have "parse_line (readline ''3.14'') = Inr (Finite False 7070651414971679 (- 51))"
    by code_simp
  then have "read_user_time ''timings/nim7.txt'' (initial [''timings/nim7.txt'' \<mapsto> ''3.14''])
       = Inr (Finite False 7070651414971679 (- 51))"
    by (simp add: read_user_time_def initial_def)
  ultimately show ?thesis
    by blast
qed

text \<open>
  C10. Reading an existing timing report gives what \<^verbatim>\<open>float\<close> gives on the part of the
  first line before the first \<^verbatim>\<open>user\<close>, or on the whole first line when it holds no
  \<^verbatim>\<open>user\<close>: it fails exactly when \<^verbatim>\<open>float\<close> rejects that part, and a bare number
  without the marker parses.
\<close>

theorem parse_fails_iff_prefix_invalid:
  assumes "files st path = Some content"
    and "(\<not> sublist ''user'' (readline content) \<and> pre = readline content)
         \<or> (\<exists>rest. readline content = pre @ ''user'' @ rest \<and> \<not> sublist ''user'' (pre @ ''use''))"
  shows "read_user_time path st = py_float pre
         \<and> ((\<exists>e. read_user_time path st = Inl e) \<longleftrightarrow> (\<exists>e. py_float pre = Inl e))
         \<and> ((\<exists>x. read_user_time path st = Inr x) \<longleftrightarrow> (\<exists>x. py_float pre = Inr x))"
proof -
  have "parse_line (readline content) = py_float pre"
    using assms(2) parse_line_no_marker parse_line_marker by metis
  then have "read_user_time path st = py_float pre"
    using assms(1) by (simp add: read_user_time_def)
  then show ?thesis
    by simp
qed

theorem parse_fails_iff_prefix_invalid_witness:
  "read_user_time ''timings/nim7.txt'' (initial [''timings/nim7.txt'' \<mapsto> ''3.14''])
      = py_float ''3.14''
   \<and> py_float ''3.14'' = Inr (Finite False 7070651414971679 (- 51))
   \<and> read_user_time ''timings/nim7.txt'' (initial [''timings/nim7.txt'' \<mapsto> ''1.5 user 0.2system''])
      = py_float ''1.5 ''
   \<and> py_float ''1.5 '' = Inr (Finite False 6755399441055744 (- 52))
   \<and> read_user_time ''timings/nim7.txt'' (initial [''timings/nim7.txt'' \<mapsto> ''abcuser''])
      = py_float ''abc''
   \<and> py_float ''abc'' = Inl ValueError"
proof -
  have f: "files (initial [''timings/nim7.txt'' \<mapsto> c]) ''timings/nim7.txt'' = Some c" for c
    by (simp add: initial_def)
  have a: "\<not> sublist ''user'' (readline ''3.14'') \<and> ''3.14'' = readline ''3.14''"
    by code_simp
  have b: "readline ''1.5 user 0.2system'' = ''1.5 '' @ ''user'' @ '' 0.2system''
           \<and> \<not> sublist ''user'' (''1.5 '' @ ''use'')"
    by code_simp
  have c: "readline ''abcuser'' = ''abc'' @ ''user'' @ ''''
           \<and> \<not> sublist ''user'' (''abc'' @ ''use'')"
    by code_simp
  have "read_user_time ''timings/nim7.txt'' (initial [''timings/nim7.txt'' \<mapsto> ''3.14''])
      = py_float ''3.14''"
    using parse_fails_iff_prefix_invalid [OF f, of "''3.14''" "''3.14''"] a by blast
  moreover have "read_user_time ''timings/nim7.txt''
       (initial [''timings/nim7.txt'' \<mapsto> ''1.5 user 0.2system'']) = py_float ''1.5 ''"
    using parse_fails_iff_prefix_invalid [OF f, of "''1.5 user 0.2system''" "''1.5 ''"] b by blast
  moreover have "read_user_time ''timings/nim7.txt''
       (initial [''timings/nim7.txt'' \<mapsto> ''abcuser'']) = py_float ''abc''"
    using parse_fails_iff_prefix_invalid [OF f, of "''abcuser''" "''abc''"] c by blast
  moreover have "py_float ''3.14'' = Inr (Finite False 7070651414971679 (- 51))"
    by code_simp
  moreover have "py_float ''1.5 '' = Inr (Finite False 6755399441055744 (- 52))"
    by code_simp
  moreover have "py_float ''abc'' = Inl ValueError"
    by code_simp
  ultimately show ?thesis
    by blast
qed

section \<open>Aggregator\<close>

lemma report_rejects:
  assumes "length (time_nim s) \<noteq> length elements \<or> length (time_fenics s) \<noteq> length elements"
  shows "\<exists>s'. report s = Inl (ValueError, s') \<and> saved s' = saved s"
  using assms by (auto simp: report_def loglog_def Let_def)

text \<open>
  C4. When the loop over the sizes completes, each of the two series has one measurement
  per size, and the measurement at position \<open>i\<close> is the one read from the report of the
  \<open>i\<close>-th size, in the files as they were once that size had been processed (in reuse
  mode: in the files the script found). The lines after the loop do not take this for
  granted: two series of different lengths, or a series whose length is not the number of
  sizes of the sweep, make \<^verbatim>\<open>plt.loglog\<close> raise \<^verbatim>\<open>ValueError\<close> before the speedup is
  computed, and nothing is saved.
\<close>

theorem series_lengths_aligned:
  assumes "loop run spawn fenics_env sizes (initial fs) = Inr st"
  shows "length (time_nim st) = length sizes \<and> length (time_fenics st) = length sizes
    \<and> (\<forall>i < length sizes. \<exists>st_i.
          loop run spawn fenics_env (take (Suc i) sizes) (initial fs) = Inr st_i
          \<and> read_user_time (nim_path (sizes ! i)) st_i = Inr (time_nim st ! i)
          \<and> read_user_time (fenics_path (sizes ! i)) st_i = Inr (time_fenics st ! i))
    \<and> (\<not> run \<longrightarrow> (\<forall>i < length sizes.
          read_user_time (nim_path (sizes ! i)) (initial fs) = Inr (time_nim st ! i)
          \<and> read_user_time (fenics_path (sizes ! i)) (initial fs) = Inr (time_fenics st ! i)))
    \<and> (\<forall>s. length (time_nim s) \<noteq> length (time_fenics s) \<longrightarrow>
          (\<exists>s'. report s = Inl (ValueError, s') \<and> saved s' = saved s))
    \<and> (\<forall>ks s. sweep elements = Inr ks
          \<and> (length (time_nim s) \<noteq> length ks \<or> length (time_fenics s) \<noteq> length ks) \<longrightarrow>
          (\<exists>s'. report s = Inl (ValueError, s') \<and> saved s' = saved s))"
proof -
  have rej: "\<exists>s'. report s = Inl (ValueError, s') \<and> saved s' = saved s"
    if "length (time_nim s) \<noteq> length (time_fenics s)" for s
    using that by (intro report_rejects) auto
  have rejk: "\<exists>s'. report s = Inl (ValueError, s') \<and> saved s' = saved s"
    if "sweep elements = Inr ks"
      and "length (time_nim s) \<noteq> length ks \<or> length (time_fenics s) \<noteq> length ks" for ks s
    using that sweep_length [of elements ks] by (intro report_rejects) auto
  have len: "length (time_nim st) = length sizes \<and> length (time_fenics st) = length sizes"
    using loop_Inr [OF assms] by (simp add: initial_def)
  have at: "\<exists>st_i.
          loop run spawn fenics_env (take (Suc i) sizes) (initial fs) = Inr st_i
          \<and> read_user_time (nim_path (sizes ! i)) st_i = Inr (time_nim st ! i)
          \<and> read_user_time (fenics_path (sizes ! i)) st_i = Inr (time_fenics st ! i)"
    if i: "i < length sizes" for i
  proof -
    have split: "sizes = (take i sizes @ [sizes ! i]) @ drop (Suc i) sizes"
      using i by (simp add: id_take_nth_drop [symmetric])
    have tk: "take (Suc i) sizes = take i sizes @ [sizes ! i]"
      using i by (rule take_Suc_conv_app_nth)
    have "loop run spawn fenics_env ((take i sizes @ [sizes ! i]) @ drop (Suc i) sizes) (initial fs)
            = Inr st"
      using assms split by simp
    then obtain st_i where
      li: "loop run spawn fenics_env (take i sizes @ [sizes ! i]) (initial fs) = Inr st_i" and
      lr: "loop run spawn fenics_env (drop (Suc i) sizes) st_i = Inr st"
      by (simp only: loop_append [of _ _ _ "take i sizes @ [sizes ! i]"] split: sum.splits) auto
    from li obtain st_a where
      la: "loop run spawn fenics_env (take i sizes) (initial fs) = Inr st_a" and
      bi: "body run spawn fenics_env (sizes ! i) st_a = Inr st_i"
      by (auto simp: loop_append split: sum.splits)
    have na: "length (time_nim st_a) = i \<and> length (time_fenics st_a) = i"
      using loop_Inr [OF la] i by (simp add: initial_def)
    from body_reads [OF bi] obtain t u where
      t: "time_nim st_i = time_nim st_a @ [t]" "read_user_time (nim_path (sizes ! i)) st_i = Inr t" and
      u: "time_fenics st_i = time_fenics st_a @ [u]"
         "read_user_time (fenics_path (sizes ! i)) st_i = Inr u"
      by blast
    from loop_extends [OF lr] obtain ts us where
      "time_nim st = time_nim st_i @ ts" "time_fenics st = time_fenics st_i @ us"
      by blast
    then have "time_nim st ! i = t" "time_fenics st ! i = u"
      using t(1) u(1) na by (simp_all add: nth_append)
    then show ?thesis
      using li t(2) u(2) tk by simp
  qed
  have reuse: "read_user_time (nim_path (sizes ! i)) (initial fs) = Inr (time_nim st ! i)
          \<and> read_user_time (fenics_path (sizes ! i)) (initial fs) = Inr (time_fenics st ! i)"
    if i: "i < length sizes" and r: "\<not> run" for i
  proof -
    from at [OF i] obtain st_i where
      l: "loop False spawn fenics_env (take (Suc i) sizes) (initial fs) = Inr st_i" and
      v: "read_user_time (nim_path (sizes ! i)) st_i = Inr (time_nim st ! i)"
         "read_user_time (fenics_path (sizes ! i)) st_i = Inr (time_fenics st ! i)"
      using r by auto
    have "files st_i = files (initial fs)"
      using loop_reuse_Inr [OF l] by simp
    then have "read_user_time p st_i = read_user_time p (initial fs)" for p
      by (rule read_user_time_files)
    then show ?thesis
      using v by simp
  qed
  show ?thesis
    using len at reuse rej rejk by blast
qed

theorem series_lengths_aligned_witness:
  "\<exists>st. loop True (\<lambda>c fs. Inr (fs(argv c ! 2 \<mapsto> ''1.5user 0.1system''))) Map.empty [7, 22]
          (initial Map.empty) = Inr st
     \<and> length (time_nim st) = 2 \<and> length (time_fenics st) = 2
     \<and> (\<exists>st_i. loop True (\<lambda>c fs. Inr (fs(argv c ! 2 \<mapsto> ''1.5user 0.1system''))) Map.empty
                 (take (Suc 1) [7, 22]) (initial Map.empty) = Inr st_i
           \<and> read_user_time (nim_path ([7, 22] ! 1)) st_i = Inr (time_nim st ! 1))
     \<and> (\<exists>s'. report (initial Map.empty
                 \<lparr>time_nim := [double_of_int 2, double_of_int 3],
                  time_fenics := [double_of_int 6]\<rparr>) = Inl (ValueError, s')
           \<and> saved s' = [])"
proof -
  let ?S = "\<lambda>c fs. Inr (fs(argv c ! 2 \<mapsto> ''1.5user 0.1system'')) :: error + (string \<rightharpoonup> string)"
  let ?s = "initial Map.empty
                 \<lparr>time_nim := [double_of_int 2, double_of_int 3],
                  time_fenics := [double_of_int 6]\<rparr>"
  have "\<not> isl (loop True ?S Map.empty [7, 22] (initial Map.empty))"
    by code_simp
  then obtain st where st: "loop True ?S Map.empty [7, 22] (initial Map.empty) = Inr st"
    by (cases "loop True ?S Map.empty [7, 22] (initial Map.empty)") auto
  have l2: "length [7 :: int, 22] = 2" and i: "1 < length [7 :: int, 22]"
    by simp_all
  note t = series_lengths_aligned [OF st, unfolded l2]
  from t have len: "length (time_nim st) = 2" "length (time_fenics st) = 2"
    by blast+
  from t have "\<forall>i < 2. \<exists>st_i.
          loop True ?S Map.empty (take (Suc i) [7, 22]) (initial Map.empty) = Inr st_i
          \<and> read_user_time (nim_path ([7, 22] ! i)) st_i = Inr (time_nim st ! i)
          \<and> read_user_time (fenics_path ([7, 22] ! i)) st_i = Inr (time_fenics st ! i)"
    by blast
  then have a: "\<exists>st_i.
          loop True ?S Map.empty (take (Suc 1) [7, 22]) (initial Map.empty) = Inr st_i
          \<and> read_user_time (nim_path ([7, 22] ! 1)) st_i = Inr (time_nim st ! 1)"
    by (metis one_less_numeral_iff semiring_norm(76))
  have ne: "length (time_nim ?s) \<noteq> length (time_fenics ?s)"
    by simp
  from t have "\<forall>s. length (time_nim s) \<noteq> length (time_fenics s) \<longrightarrow>
          (\<exists>s'. report s = Inl (ValueError, s') \<and> saved s' = saved s)"
    by blast
  with ne have "\<exists>s'. report ?s = Inl (ValueError, s') \<and> saved s' = saved ?s"
    by blast
  moreover have "saved ?s = []"
    by (simp add: initial_def)
  ultimately have b: "\<exists>s'. report ?s = Inl (ValueError, s') \<and> saved s' = []"
    by simp
  show ?thesis
    using st len a b by blast
qed

text \<open>
  C5. With both series as long as the sweep, the report never raises; the speedup it prints
  has their length, its entry at each index is the binary64 quotient of the FEniCS
  measurement by the Nim measurement at that index, and where the Nim measurement is zero
  the entry is an infinity or \<open>nan\<close>.
\<close>

theorem speedup_elementwise_ratio:
  assumes "length (time_nim st) = length elements"
    and "length (time_fenics st) = length elements"
  shows "\<exists>st' sp. report st = Inr st' \<and> last (printed st') = PrintSpeedup sp
    \<and> length sp = length (time_nim st) \<and> length sp = length (time_fenics st)
    \<and> (\<forall>i < length sp. sp ! i = np_true_divide (time_fenics st ! i) (time_nim st ! i))
    \<and> (\<forall>i < length sp. \<forall>s e. time_nim st ! i = Finite s 0 e \<longrightarrow>
          sp ! i = NaN \<or> (\<exists>t. sp ! i = Infinity t))"
proof -
  let ?sp = "map2 np_true_divide (time_fenics st) (time_nim st)"
  have len: "length ?sp = length (time_nim st)" "length ?sp = length (time_fenics st)"
    using assms by simp_all
  have el: "?sp ! i = np_true_divide (time_fenics st ! i) (time_nim st ! i)" if "i < length ?sp" for i
    using that by simp
  have z: "?sp ! i = NaN \<or> (\<exists>t. ?sp ! i = Infinity t)"
    if "i < length ?sp" and "time_nim st ! i = Finite s 0 e" for i s e
    using el [OF that(1)] np_true_divide_zero [of "time_fenics st ! i" s e] that(2) by simp
  have "\<exists>st'. report st = Inr st' \<and> last (printed st') = PrintSpeedup ?sp"
    using report_total [OF assms] by simp
  then show ?thesis
    using len el z by blast
qed

theorem speedup_elementwise_ratio_witness:
  "\<exists>st' sp. report (initial Map.empty
        \<lparr>time_nim := map double_of_int [0, 0, 2, 2, 2, 2],
         time_fenics := map double_of_int [1, 0, 6, 6, 6, 6]\<rparr>) = Inr st'
     \<and> last (printed st') = PrintSpeedup sp \<and> length sp = 6
     \<and> sp ! 0 = Infinity False \<and> sp ! 1 = NaN \<and> sp ! 2 = double_of_int 3"
proof -
  let ?st = "initial Map.empty
        \<lparr>time_nim := map double_of_int [0, 0, 2, 2, 2, 2],
         time_fenics := map double_of_int [1, 0, 6, 6, 6, 6]\<rparr>"
  have l: "length elements = 6"
    by (simp add: elements_eval)
  have a: "length (time_nim ?st) = length elements" "length (time_fenics ?st) = length elements"
    by (simp_all add: l)
  from speedup_elementwise_ratio [OF a] obtain st' sp where
    r: "report ?st = Inr st'" "last (printed st') = PrintSpeedup sp" and
    n: "length sp = length (time_nim ?st)" and
    e: "\<forall>i < length sp. sp ! i = np_true_divide (time_fenics ?st ! i) (time_nim ?st ! i)"
    by blast
  have n6: "length sp = 6"
    using n by simp
  have "sp ! 0 = np_true_divide (double_of_int 1) (double_of_int 0)"
    "sp ! 1 = np_true_divide (double_of_int 0) (double_of_int 0)"
    "sp ! 2 = np_true_divide (double_of_int 6) (double_of_int 2)"
    using e n6 by simp_all
  moreover have "np_true_divide (double_of_int 1) (double_of_int 0) = Infinity False"
    "np_true_divide (double_of_int 0) (double_of_int 0) = NaN"
    "np_true_divide (double_of_int 6) (double_of_int 2) = double_of_int 3"
    by code_simp+
  ultimately show ?thesis
    using r n6 by auto
qed

section \<open>Run Controller and the script as a whole\<close>

text \<open>
  C7. An exception (a missing timing file, a first line that \<^verbatim>\<open>float\<close> rejects, or any
  other) ends the script with exit status 1 before \<^verbatim>\<open>plt.savefig\<close>: no image is saved.
  The image \<^verbatim>\<open>comparison.png\<close> is saved only when a measurement has been parsed for
  every size and both solvers; in reuse mode that is exactly when every timing report of
  every size is there and parses.
\<close>

theorem failure_aborts_without_chart:
  assumes "sweep elements = Inr sizes"
  shows "(\<forall>e st. harness run os_environ spawn fs = Inl (e, st) \<longrightarrow>
            exit_status (harness run os_environ spawn fs) = 1 \<and> saved st = [])
    \<and> (\<forall>st. harness run os_environ spawn fs = Inr st \<longrightarrow>
            exit_status (harness run os_environ spawn fs) = 0
            \<and> (\<exists>fig. saved st = [(''comparison.png'', fig)])
            \<and> length (time_nim st) = length sizes \<and> length (time_fenics st) = length sizes
            \<and> (\<not> run \<longrightarrow> reports_ok sizes (initial fs)))
    \<and> (\<not> reports_ok sizes (initial fs) \<longrightarrow>
          (\<exists>e st. harness False os_environ spawn fs = Inl (e, st)
             \<and> (e = FileNotFoundError \<or> e = ValueError) \<and> saved st = []
             \<and> exit_status (harness False os_environ spawn fs) = 1))
    \<and> (reports_ok sizes (initial fs) \<longrightarrow> (\<exists>st. harness False os_environ spawn fs = Inr st))"
proof -
  let ?fe = "os_environ(''OMP_NUM_THREADS'' \<mapsto> ''1'')"
  note h = harness_unfold [OF assms]
  have a: "exit_status (harness run os_environ spawn fs) = 1 \<and> saved st = []"
    if f: "harness run os_environ spawn fs = Inl (e, st)" for e st
  proof (cases "loop run spawn ?fe sizes (initial fs)")
    case (Inl failure)
    then have "loop run spawn ?fe sizes (initial fs) = Inl (e, st)"
      using f by (simp add: h)
    from loop_Inl [OF this] show ?thesis
      using f by (simp add: initial_fields exit_status_simps)
  next
    case (Inr st1)
    then have "report st1 = Inl (e, st)"
      using f by (simp add: h)
    from report_Inl [OF this] loop_Inr [OF Inr] show ?thesis
      using f by (simp add: initial_fields exit_status_simps)
  qed
  have b: "exit_status (harness run os_environ spawn fs) = 0
            \<and> (\<exists>fig. saved st = [(''comparison.png'', fig)])
            \<and> length (time_nim st) = length sizes \<and> length (time_fenics st) = length sizes
            \<and> (\<not> run \<longrightarrow> reports_ok sizes (initial fs))"
    if s: "harness run os_environ spawn fs = Inr st" for st
  proof -
    from s obtain st1 where l: "loop run spawn ?fe sizes (initial fs) = Inr st1"
      and r: "report st1 = Inr st"
      by (auto simp: h split: sum.splits)
    have "\<not> run \<longrightarrow> reports_ok sizes (initial fs)"
    proof
      assume "\<not> run"
      then have "\<exists>st'. loop False spawn ?fe sizes (initial fs) = Inr st'"
        using l by auto
      then show "reports_ok sizes (initial fs)"
        by (simp only: loop_reuse_ok_iff)
    qed
    then show ?thesis
      using loop_Inr [OF l] report_Inr [OF r] report_times [OF r] s
      by (auto simp: initial_fields exit_status_simps)
  qed
  have c: "\<exists>e st. harness False os_environ spawn fs = Inl (e, st)
             \<and> (e = FileNotFoundError \<or> e = ValueError) \<and> saved st = []
             \<and> exit_status (harness False os_environ spawn fs) = 1"
    if n: "\<not> reports_ok sizes (initial fs)"
  proof -
    have "\<nexists>st'. loop False spawn ?fe sizes (initial fs) = Inr st'"
      using n loop_reuse_ok_iff by blast
    then obtain e st where l: "loop False spawn ?fe sizes (initial fs) = Inl (e, st)"
      by (cases "loop False spawn ?fe sizes (initial fs)") auto
    then have hf: "harness False os_environ spawn fs = Inl (e, st)"
      by (simp add: harness_unfold [OF assms])
    from loop_reuse_Inl [OF l] have "e = FileNotFoundError \<or> e = ValueError" "saved st = []"
      using read_user_time_error by (auto simp: initial_fields)
    then show ?thesis
      using hf by (simp add: exit_status_simps)
  qed
  have d: "\<exists>st. harness False os_environ spawn fs = Inr st"
    if "reports_ok sizes (initial fs)"
  proof -
    from loop_reuse_total [OF that] obtain st1 where
      l: "loop False spawn ?fe sizes (initial fs) = Inr st1"
      by blast
    have "length sizes = length elements"
      using assms by (rule sweep_length)
    then have "length (time_nim st1) = length elements" "length (time_fenics st1) = length elements"
      using loop_Inr [OF l] by (simp_all add: initial_fields)
    from report_total [OF this] show ?thesis
      using l by (simp add: harness_unfold [OF assms])
  qed
  show ?thesis
    using a b c d by blast
qed

theorem failure_aborts_without_chart_witness:
  "sweep elements = Inr [7, 22, 70, 223, 707, 2236]
   \<and> \<not> reports_ok [7, 22, 70, 223, 707, 2236]
         (initial [''timings/nim7.txt'' \<mapsto> ''0.01user'', ''timings/fenics7.txt'' \<mapsto> ''no marker here''])
   \<and> (\<exists>e st. harness False Map.empty (\<lambda>c fs. Inr fs)
          [''timings/nim7.txt'' \<mapsto> ''0.01user'', ''timings/fenics7.txt'' \<mapsto> ''no marker here'']
            = Inl (e, st)
          \<and> saved st = [])
   \<and> reports_ok [7, 22, 70, 223, 707, 2236]
         (initial (map_of (map (\<lambda>n. (nim_path n, ''1.5user 0.1system'')) [7, 22, 70, 223, 707, 2236]
                     @ map (\<lambda>n. (fenics_path n, ''3.0user'')) [7, 22, 70, 223, 707, 2236])))
   \<and> (\<exists>st fig. harness False Map.empty (\<lambda>c fs. Inr fs)
          (map_of (map (\<lambda>n. (nim_path n, ''1.5user 0.1system'')) [7, 22, 70, 223, 707, 2236]
                     @ map (\<lambda>n. (fenics_path n, ''3.0user'')) [7, 22, 70, 223, 707, 2236]))
            = Inr st
          \<and> saved st = [(''comparison.png'', fig)])"
proof -
  let ?bad = "[''timings/nim7.txt'' \<mapsto> ''0.01user'', ''timings/fenics7.txt'' \<mapsto> ''no marker here'']"
  let ?good = "map_of (map (\<lambda>n. (nim_path n, ''1.5user 0.1system'')) [7, 22, 70, 223, 707, 2236]
                     @ map (\<lambda>n. (fenics_path n, ''3.0user'')) [7, 22, 70, 223, 707, 2236])"
  let ?S = "\<lambda>c fs. Inr fs :: error + (string \<rightharpoonup> string)"
  have s: "sweep elements = Inr [7, 22, 70, 223, 707, 2236]"
    by code_simp
  have n: "\<not> reports_ok [7, 22, 70, 223, 707, 2236] (initial ?bad)"
    by code_simp
  have g: "reports_ok [7, 22, 70, 223, 707, 2236] (initial ?good)"
    by code_simp
  note t = failure_aborts_without_chart [OF s]
  from t [of False Map.empty ?S ?bad] n
  have "\<exists>e st. harness False Map.empty ?S ?bad = Inl (e, st) \<and> saved st = []"
    by blast
  moreover from t [of False Map.empty ?S ?good] g
  obtain st where st: "harness False Map.empty ?S ?good = Inr st"
    by blast
  with t [of False Map.empty ?S ?good]
  have "\<exists>st fig. harness False Map.empty ?S ?good = Inr st \<and> saved st = [(''comparison.png'', fig)]"
    by blast
  ultimately show ?thesis
    using s n g by blast
qed

text \<open>
  C8. With \<^verbatim>\<open>run = False\<close> the script starts no child process, whatever happens: its
  result does not depend on what starting one would do, the list of started processes is
  empty, and the files are left as found. When every timing report is there and parses it
  saves the image and prints a speedup with one entry per size, six in all, computed from the
  values read from the files.
\<close>

theorem reuse_mode_spawns_nothing:
  assumes "sweep elements = Inr sizes"
  shows "comparison os_environ spawn fs = harness False os_environ spawn fs
    \<and> comparison os_environ spawn fs = comparison os_environ' spawn' fs
    \<and> (\<forall>e st. comparison os_environ spawn fs = Inl (e, st) \<longrightarrow> spawned st = [] \<and> files st = fs)
    \<and> (\<forall>st. comparison os_environ spawn fs = Inr st \<longrightarrow> spawned st = [] \<and> files st = fs)
    \<and> (reports_ok sizes (initial fs) \<longrightarrow>
         (\<exists>st fig sp. comparison os_environ spawn fs = Inr st
            \<and> spawned st = []
            \<and> saved st = [(''comparison.png'', fig)]
            \<and> last (printed st) = PrintSpeedup sp
            \<and> length sp = length sizes \<and> length sizes = 6
            \<and> map (\<lambda>n. read_user_time (nim_path n) (initial fs)) sizes = map Inr (time_nim st)
            \<and> map (\<lambda>n. read_user_time (fenics_path n) (initial fs)) sizes
                = map Inr (time_fenics st)))"
proof -
  let ?fe = "os_environ(''OMP_NUM_THREADS'' \<mapsto> ''1'')"
  note h = harness_unfold [OF assms, of False os_environ spawn fs]
  have c: "comparison os_environ spawn fs = harness False os_environ spawn fs"
    by (simp add: comparison_def)
  have i: "comparison os_environ spawn fs = comparison os_environ' spawn' fs"
    unfolding comparison_def by (rule harness_reuse_indep)
  have a: "spawned st = [] \<and> files st = fs"
    if f: "comparison os_environ spawn fs = Inl (e, st)" for e st
  proof (cases "loop False spawn ?fe sizes (initial fs)")
    case (Inl failure)
    then have "loop False spawn ?fe sizes (initial fs) = Inl (e, st)"
      using f by (simp add: c h)
    from loop_reuse_Inl [OF this] show ?thesis
      by (simp add: initial_fields)
  next
    case (Inr st1)
    then have "report st1 = Inl (e, st)"
      using f by (simp add: c h)
    from report_Inl [OF this] loop_reuse_Inr [OF Inr] show ?thesis
      by (simp add: initial_fields)
  qed
  have b: "spawned st = [] \<and> files st = fs"
    if s: "comparison os_environ spawn fs = Inr st" for st
  proof -
    from s obtain st1 where l: "loop False spawn ?fe sizes (initial fs) = Inr st1"
      and r: "report st1 = Inr st"
      by (auto simp: c h split: sum.splits)
    from report_Inr [OF r] loop_reuse_Inr [OF l] show ?thesis
      by (simp add: initial_fields)
  qed
  have len: "length sizes = length elements"
    using assms by (rule sweep_length)
  have six: "length elements = 6"
    by (simp add: elements_eval)
  have d: "\<exists>st fig sp. comparison os_environ spawn fs = Inr st
            \<and> spawned st = []
            \<and> saved st = [(''comparison.png'', fig)]
            \<and> last (printed st) = PrintSpeedup sp
            \<and> length sp = length sizes \<and> length sizes = 6
            \<and> map (\<lambda>n. read_user_time (nim_path n) (initial fs)) sizes = map Inr (time_nim st)
            \<and> map (\<lambda>n. read_user_time (fenics_path n) (initial fs)) sizes
                = map Inr (time_fenics st)"
    if ok: "reports_ok sizes (initial fs)"
  proof -
    from loop_reuse_total [OF ok] obtain st1 where
      l: "loop False spawn ?fe sizes (initial fs) = Inr st1"
      by blast
    from loop_reuse_Inr [OF l] have
      fr: "spawned st1 = []" "saved st1 = []" and
      tn: "map (\<lambda>n. read_user_time (nim_path n) (initial fs)) sizes = map Inr (time_nim st1)" and
      tf: "map (\<lambda>n. read_user_time (fenics_path n) (initial fs)) sizes = map Inr (time_fenics st1)"
      by (auto simp: initial_fields)
    have n: "length (time_nim st1) = length elements" "length (time_fenics st1) = length elements"
      using loop_Inr [OF l] len by (simp_all add: initial_fields)
    let ?sp = "map2 np_true_divide (time_fenics st1) (time_nim st1)"
    obtain st where r: "report st1 = Inr st"
      and p: "last (printed st) = PrintSpeedup ?sp"
      and t: "time_nim st = time_nim st1" "time_fenics st = time_fenics st1"
      and sv: "\<exists>fig. saved st = [(''comparison.png'', fig)]"
      and sp: "spawned st = []"
      using report_total [OF n] fr by simp
    have "comparison os_environ spawn fs = Inr st"
      using l r by (simp add: c h)
    moreover have "length ?sp = length sizes"
      using n len by simp
    ultimately show ?thesis
      using p t sv sp tn tf len six by auto
  qed
  show ?thesis
    using c i a b d by blast
qed

theorem reuse_mode_spawns_nothing_witness:
  "sweep elements = Inr [7, 22, 70, 223, 707, 2236]
   \<and> reports_ok [7, 22, 70, 223, 707, 2236]
         (initial (map_of (map (\<lambda>n. (nim_path n, ''1.5user 0.1system'')) [7, 22, 70, 223, 707, 2236]
                     @ map (\<lambda>n. (fenics_path n, ''3.0user'')) [7, 22, 70, 223, 707, 2236])))
   \<and> (\<exists>st fig sp. comparison Map.empty (\<lambda>c fs. Inl OSError)
          (map_of (map (\<lambda>n. (nim_path n, ''1.5user 0.1system'')) [7, 22, 70, 223, 707, 2236]
                     @ map (\<lambda>n. (fenics_path n, ''3.0user'')) [7, 22, 70, 223, 707, 2236]))
            = Inr st
          \<and> spawned st = []
          \<and> saved st = [(''comparison.png'', fig)]
          \<and> last (printed st) = PrintSpeedup sp \<and> length sp = 6)"
proof -
  let ?good = "map_of (map (\<lambda>n. (nim_path n, ''1.5user 0.1system'')) [7, 22, 70, 223, 707, 2236]
                     @ map (\<lambda>n. (fenics_path n, ''3.0user'')) [7, 22, 70, 223, 707, 2236])"
  let ?S = "\<lambda>c fs. Inl OSError :: error + (string \<rightharpoonup> string)"
  have s: "sweep elements = Inr [7, 22, 70, 223, 707, 2236]"
    by code_simp
  have g: "reports_ok [7, 22, 70, 223, 707, 2236] (initial ?good)"
    by code_simp
  have l: "length [7 :: int, 22, 70, 223, 707, 2236] = 6"
    by simp
  from reuse_mode_spawns_nothing [OF s, of Map.empty ?S ?good] g
  have "\<exists>st fig sp. comparison Map.empty ?S ?good = Inr st
          \<and> spawned st = []
          \<and> saved st = [(''comparison.png'', fig)]
          \<and> last (printed st) = PrintSpeedup sp \<and> length sp = 6"
    unfolding l by blast
  then show ?thesis
    using s g by blast
qed

text \<open>
  C9. With \<^verbatim>\<open>run = True\<close> the script starts, for each size in turn, the Nim solver
  under \<^verbatim>\<open>/usr/bin/time\<close> with the size as its only argument and the environment of
  the script, and then the FEniCS script with the size as its only argument and an
  environment that has \<^verbatim>\<open>OMP_NUM_THREADS\<close> set to \<^verbatim>\<open>1\<close> and every other
  variable as in the environment of the script.
\<close>

theorem execute_mode_environments:
  assumes "sweep elements = Inr sizes"
  shows "(\<forall>st. harness True os_environ spawn fs = Inr st \<longrightarrow>
           length (spawned st) = 2 * length sizes
           \<and> (\<forall>i < length sizes.
                 argv (spawned st ! (2 * i)) =
                   [''/usr/bin/time'', ''-o'', ''timings/nim'' @ str_int (sizes ! i) @ ''.txt'',
                    ''./poisson'', str_int (sizes ! i)]
                 \<and> child_env os_environ (spawned st ! (2 * i)) = os_environ
                 \<and> argv (spawned st ! (2 * i + 1)) =
                   [''/usr/bin/time'', ''-o'', ''timings/fenics'' @ str_int (sizes ! i) @ ''.txt'',
                    ''python3'', ''poisson.py'', str_int (sizes ! i)]
                 \<and> child_env os_environ (spawned st ! (2 * i + 1)) ''OMP_NUM_THREADS'' = Some ''1''
                 \<and> (\<forall>k. k \<noteq> ''OMP_NUM_THREADS'' \<longrightarrow>
                       child_env os_environ (spawned st ! (2 * i + 1)) k = os_environ k)))
    \<and> (\<forall>e st. harness True os_environ spawn fs = Inl (e, st) \<longrightarrow>
          (\<forall>c \<in> set (spawned st). \<exists>n \<in> set sizes.
              (argv c = [''/usr/bin/time'', ''-o'', ''timings/nim'' @ str_int n @ ''.txt'',
                         ''./poisson'', str_int n]
               \<and> child_env os_environ c = os_environ)
            \<or> (argv c = [''/usr/bin/time'', ''-o'', ''timings/fenics'' @ str_int n @ ''.txt'',
                         ''python3'', ''poisson.py'', str_int n]
               \<and> child_env os_environ c ''OMP_NUM_THREADS'' = Some ''1''
               \<and> (\<forall>k. k \<noteq> ''OMP_NUM_THREADS'' \<longrightarrow> child_env os_environ c k = os_environ k))))"
proof -
  let ?fe = "os_environ(''OMP_NUM_THREADS'' \<mapsto> ''1'')"
  note h = harness_unfold [OF assms, of True os_environ spawn fs]
  have a: "length (spawned st) = 2 * length sizes
           \<and> (\<forall>i < length sizes.
                 argv (spawned st ! (2 * i)) =
                   [''/usr/bin/time'', ''-o'', ''timings/nim'' @ str_int (sizes ! i) @ ''.txt'',
                    ''./poisson'', str_int (sizes ! i)]
                 \<and> child_env os_environ (spawned st ! (2 * i)) = os_environ
                 \<and> argv (spawned st ! (2 * i + 1)) =
                   [''/usr/bin/time'', ''-o'', ''timings/fenics'' @ str_int (sizes ! i) @ ''.txt'',
                    ''python3'', ''poisson.py'', str_int (sizes ! i)]
                 \<and> child_env os_environ (spawned st ! (2 * i + 1)) ''OMP_NUM_THREADS'' = Some ''1''
                 \<and> (\<forall>k. k \<noteq> ''OMP_NUM_THREADS'' \<longrightarrow>
                       child_env os_environ (spawned st ! (2 * i + 1)) k = os_environ k))"
    if s: "harness True os_environ spawn fs = Inr st" for st
  proof -
    from s obtain st1 where l: "loop True spawn ?fe sizes (initial fs) = Inr st1"
      and r: "report st1 = Inr st"
      by (auto simp: h split: sum.splits)
    have sp: "spawned st = concat (map (\<lambda>n. [nim_call n, fenics_call ?fe n]) sizes)"
      using loop_Inr [OF l] report_Inr [OF r] by (simp add: initial_fields)
    have "spawned st ! (2 * i) = nim_call (sizes ! i)
        \<and> spawned st ! (2 * i + 1) = fenics_call ?fe (sizes ! i)" if "i < length sizes" for i
      unfolding sp using that by (rule nth_pairs)
    then show ?thesis
      by (simp add: sp length_pairs call_shapes)
  qed
  have b: "\<exists>n \<in> set sizes.
              (argv c = [''/usr/bin/time'', ''-o'', ''timings/nim'' @ str_int n @ ''.txt'',
                         ''./poisson'', str_int n]
               \<and> child_env os_environ c = os_environ)
            \<or> (argv c = [''/usr/bin/time'', ''-o'', ''timings/fenics'' @ str_int n @ ''.txt'',
                         ''python3'', ''poisson.py'', str_int n]
               \<and> child_env os_environ c ''OMP_NUM_THREADS'' = Some ''1''
               \<and> (\<forall>k. k \<noteq> ''OMP_NUM_THREADS'' \<longrightarrow> child_env os_environ c k = os_environ k))"
    if f: "harness True os_environ spawn fs = Inl (e, st)" and c: "c \<in> set (spawned st)" for e st c
  proof -
    have sub: "set (spawned st) \<subseteq> (\<Union>n \<in> set sizes. {nim_call n, fenics_call ?fe n})"
    proof (cases "loop True spawn ?fe sizes (initial fs)")
      case (Inl failure)
      then have "loop True spawn ?fe sizes (initial fs) = Inl (e, st)"
        using f by (simp add: h)
      from loop_Inl [OF this] show ?thesis
        by (simp add: initial_fields)
    next
      case (Inr st1)
      then have "report st1 = Inl (e, st)"
        using f by (simp add: h)
      from report_Inl [OF this] loop_Inr [OF Inr] show ?thesis
        by (auto simp: initial_fields)
    qed
    then obtain n where n: "n \<in> set sizes" and "c = nim_call n \<or> c = fenics_call ?fe n"
      using c by auto
    then show ?thesis
      by (auto simp: call_shapes)
  qed
  show ?thesis
    using a b by blast
qed

theorem execute_mode_environments_witness:
  "sweep elements = Inr [7, 22, 70, 223, 707, 2236]
   \<and> (\<exists>st. harness True [''HOME'' \<mapsto> ''/root'', ''OMP_NUM_THREADS'' \<mapsto> ''8'']
              (\<lambda>c fs. Inr (fs(argv c ! 2 \<mapsto> ''1.5user 0.1system''))) Map.empty = Inr st
        \<and> length (spawned st) = 12
        \<and> argv (spawned st ! 0) =
            [''/usr/bin/time'', ''-o'', ''timings/nim7.txt'', ''./poisson'', ''7'']
        \<and> child_env [''HOME'' \<mapsto> ''/root'', ''OMP_NUM_THREADS'' \<mapsto> ''8''] (spawned st ! 0)
             ''OMP_NUM_THREADS'' = Some ''8''
        \<and> argv (spawned st ! 1) =
            [''/usr/bin/time'', ''-o'', ''timings/fenics7.txt'', ''python3'', ''poisson.py'', ''7'']
        \<and> child_env [''HOME'' \<mapsto> ''/root'', ''OMP_NUM_THREADS'' \<mapsto> ''8''] (spawned st ! 1)
             ''OMP_NUM_THREADS'' = Some ''1''
        \<and> child_env [''HOME'' \<mapsto> ''/root'', ''OMP_NUM_THREADS'' \<mapsto> ''8''] (spawned st ! 1)
             ''HOME'' = Some ''/root'')"
proof -
  let ?E = "[''HOME'' \<mapsto> ''/root'', ''OMP_NUM_THREADS'' \<mapsto> ''8''] :: environ"
  let ?S = "\<lambda>c fs. Inr (fs(argv c ! 2 \<mapsto> ''1.5user 0.1system'')) :: error + (string \<rightharpoonup> string)"
  have s: "sweep elements = Inr [7, 22, 70, 223, 707, 2236]"
    by code_simp
  have "\<not> isl (harness True ?E ?S Map.empty)"
    by code_simp
  then obtain st where st: "harness True ?E ?S Map.empty = Inr st"
    by (cases "harness True ?E ?S Map.empty") auto
  have l: "length [7 :: int, 22, 70, 223, 707, 2236] = 6" and z: "0 < (6 :: nat)"
    and n0: "[7 :: int, 22, 70, 223, 707, 2236] ! 0 = 7"
    by simp_all
  have s7: "str_int 7 = ''7''"
    by code_simp
  from execute_mode_environments [OF s, of ?E ?S Map.empty] st
  have len: "length (spawned st) = 2 * 6" and
    at: "\<forall>i < 6.
                 argv (spawned st ! (2 * i)) =
                   [''/usr/bin/time'', ''-o'',
                    ''timings/nim'' @ str_int ([7, 22, 70, 223, 707, 2236] ! i) @ ''.txt'',
                    ''./poisson'', str_int ([7, 22, 70, 223, 707, 2236] ! i)]
                 \<and> child_env ?E (spawned st ! (2 * i)) = ?E
                 \<and> argv (spawned st ! (2 * i + 1)) =
                   [''/usr/bin/time'', ''-o'',
                    ''timings/fenics'' @ str_int ([7, 22, 70, 223, 707, 2236] ! i) @ ''.txt'',
                    ''python3'', ''poisson.py'', str_int ([7, 22, 70, 223, 707, 2236] ! i)]
                 \<and> child_env ?E (spawned st ! (2 * i + 1)) ''OMP_NUM_THREADS'' = Some ''1''
                 \<and> (\<forall>k. k \<noteq> ''OMP_NUM_THREADS'' \<longrightarrow>
                       child_env ?E (spawned st ! (2 * i + 1)) k = ?E k)"
    unfolding l by blast+
  from at [rule_format, OF z] have
    "argv (spawned st ! 0) = [''/usr/bin/time'', ''-o'', ''timings/nim7.txt'', ''./poisson'', ''7'']"
    "child_env ?E (spawned st ! 0) = ?E"
    "argv (spawned st ! 1) =
       [''/usr/bin/time'', ''-o'', ''timings/fenics7.txt'', ''python3'', ''poisson.py'', ''7'']"
    "child_env ?E (spawned st ! 1) ''OMP_NUM_THREADS'' = Some ''1''"
    "child_env ?E (spawned st ! 1) ''HOME'' = ?E ''HOME''"
    by (simp_all add: s7)
  then show ?thesis
    using s st len by simp
qed

end
